theory Spec2Isabelle
  imports Complex_Main "HOL-Library.List_Lexorder" "HOL-Library.Char_ord"
begin

section \<open>Errors\<close>

text \<open>
  The Python exceptions that the modelled code can meet. Every \<open>raise\<close> of the source or of
  a library call is a value \<open>Inl e\<close> (or \<open>Some e\<close>) of the model.
\<close>

datatype error = KeyError | IndexError | ValueError | ZeroDivisionError | LibraryError

section \<open>The splitter (\<open>split_csv.py\<close>)\<close>

subsection \<open>Delimiter detection\<close>

text \<open>
  \<^verbatim>\<open>delimiters = [',', '\t', ';', '|']\<close>,
  \<^verbatim>\<open>counts = [first_line.count(d) for d in delimiters]\<close>,
  \<^verbatim>\<open>delimiter = delimiters[counts.index(max(counts))]\<close>.
\<close>

definition delimiters :: "char list" where
  "delimiters = [CHR '','', CHR 0x09, CHR '';'', CHR ''|'']"

text \<open>Python's \<open>max\<close> of a list: \<open>ValueError\<close> on the empty list.\<close>

fun py_max :: "nat list \<Rightarrow> error + nat" where
  "py_max [] = Inl ValueError"
| "py_max (x # xs) = Inr (fold max xs x)"

text \<open>Python's \<open>list.index\<close>: the first position of the value, \<open>ValueError\<close> when absent.\<close>

fun py_index :: "nat list \<Rightarrow> nat \<Rightarrow> error + nat" where
  "py_index [] y = Inl ValueError"
| "py_index (x # xs) y =
     (if x = y then Inr 0
      else (case py_index xs y of Inl e \<Rightarrow> Inl e | Inr i \<Rightarrow> Inr (Suc i)))"

definition detect_delimiter :: "string \<Rightarrow> error + char" where
  "detect_delimiter first_line =
     (let counts = map (count_list first_line) delimiters in
      case py_max counts of
        Inl e \<Rightarrow> Inl e
      | Inr m \<Rightarrow>
          (case py_index counts m of
             Inl e \<Rightarrow> Inl e
           | Inr i \<Rightarrow> Inr (delimiters ! i)))"

subsection \<open>The primary path\<close>

text \<open>
  \<^verbatim>\<open>rows_per_split = math.ceil(total_rows / num_splits)\<close>. The quotient is taken exactly
  (the source divides in double precision, which is exact for the row counts of a file that
  fits in memory).
\<close>

definition rows_per_split :: "nat \<Rightarrow> nat \<Rightarrow> nat" where
  "rows_per_split total_rows num_splits =
     nat \<lceil>rat_of_nat total_rows / rat_of_nat num_splits\<rceil>"

text \<open>
  \<^verbatim>\<open>df.iloc[start_idx:end_idx]\<close> for two indices that are not negative: the rows from
  \<open>start_idx\<close> up to, not including, \<open>end_idx\<close>; no row when \<open>end_idx \<le> start_idx\<close>
  or when \<open>start_idx\<close> is past the end.
\<close>

definition iloc :: "nat \<Rightarrow> nat \<Rightarrow> 'a list \<Rightarrow> 'a list" where
  "iloc start_idx end_idx rows = take (end_idx - start_idx) (drop start_idx rows)"

text \<open>The pair \<open>(start_idx, end_idx)\<close> of iteration \<open>i\<close> of the loop.\<close>

definition split_range :: "nat \<Rightarrow> nat \<Rightarrow> nat \<Rightarrow> nat \<times> nat" where
  "split_range total_rows num_splits i =
     (let rps = rows_per_split total_rows num_splits in
      (i * rps, min ((i + 1) * rps) total_rows))"

text \<open>
  The loop \<^verbatim>\<open>for i in range(num_splits)\<close>: the list of the data frames written to
  \<open>part_1.csv\<close>, \<open>part_2.csv\<close>, ... in that order.
\<close>

definition split_parts :: "nat \<Rightarrow> 'a list \<Rightarrow> 'a list list" where
  "split_parts num_splits rows =
     map (\<lambda>i. case split_range (length rows) num_splits i of
                 (start_idx, end_idx) \<Rightarrow> iloc start_idx end_idx rows)
       [0..<num_splits]"

text \<open>
  The primary path of \<open>split_csv\<close> on the loaded rows. \<open>num_splits\<close> is a Python integer:
  zero makes the division raise (the source then takes its fallback path), and for a negative
  count \<open>range(num_splits)\<close> is empty and no part is written.
\<close>

definition split_csv :: "int \<Rightarrow> 'a list \<Rightarrow> error + 'a list list" where
  "split_csv num_splits rows =
     (if num_splits = 0 then Inl ZeroDivisionError
      else if num_splits < 0 then Inr []
      else Inr (split_parts (nat num_splits) rows))"

section \<open>The cleaning pipeline (\<open>scriptes/data_cleaner.py\<close>)\<close>

subsection \<open>Data frames\<close>

text \<open>
  A pandas column has a dtype and one cell per row; a missing cell (\<open>NaN\<close>, \<open>None\<close>,
  \<open>NaT\<close>) is \<open>None\<close>. The three dtypes the cleaner distinguishes are numeric
  (\<open>np.number\<close>), \<open>object\<close> (text) and \<open>datetime64\<close>. A numeric value is a finite
  number or one of the two infinities of floating point, which \<open>read_csv\<close> loads from the
  texts \<open>inf\<close> and \<open>-inf\<close>; a finite number is an exact rational (arithmetic on finite
  numbers is not rounded and does not overflow). A data frame is the list of its labelled
  columns, in column order. \<open>read_csv\<close> makes the labels unique, so
  \<^verbatim>\<open>self.df[col]\<close> is one column and a loop over column labels visits each column
  once, in order.
\<close>

datatype float64 = Finite rat | PosInf | NegInf

datatype coldata =
    Numeric "float64 option list"
  | Object "string option list"
  | Datetime "int option list"

type_synonym column = "string \<times> coldata"
type_synonym dataset = "column list"

fun ncells :: "coldata \<Rightarrow> nat" where
  "ncells (Numeric cs) = length cs"
| "ncells (Object cs) = length cs"
| "ncells (Datetime cs) = length cs"

text \<open>\<^verbatim>\<open>len(df)\<close>: the number of rows.\<close>

definition row_count :: "dataset \<Rightarrow> nat" where
  "row_count d = (case d of [] \<Rightarrow> 0 | (col, x) # _ \<Rightarrow> ncells x)"

text \<open>What the cleaner prints, one constructor per message.\<close>

datatype event =
    ImputedMean string "float64 option"
  | ImputedMode string string
  | KnnCompleted nat
  | KnnNoSuitable
  | KnnNoNumeric
  | KnnError error
  | Proceeding
  | OutliersCapped string nat "float64 option" "float64 option"
  | ConvertedDatetime string
  | CouldNotConvert string error
  | ConvertedNumeric string

text \<open>The object: the working frame, the copy made at load time, and the console.\<close>

record cleaner =
  df :: dataset
  original_df :: dataset
  out :: "event list"

text \<open>\<open>__init__\<close>, after \<open>read_csv\<close> has produced the frame.\<close>

definition DataCleaner :: "dataset \<Rightarrow> cleaner" where
  "DataCleaner loaded = \<lparr>df = loaded, original_df = loaded, out = []\<rparr>"

text \<open>
  A loop \<^verbatim>\<open>for col in ...: \<close> whose body reads and writes only the column \<open>col\<close> and
  prints: the body is a function from the column to the new column and its messages.
\<close>

definition for_each_column :: "(column \<Rightarrow> column \<times> event list) \<Rightarrow> dataset \<Rightarrow> dataset \<times> event list" where
  "for_each_column body d = (map (\<lambda>c. fst (body c)) d, concat (map (\<lambda>c. snd (body c)) d))"

subsection \<open>Series operations of pandas\<close>

definition dropna :: "'a option list \<Rightarrow> 'a list" where
  "dropna cs = [v. Some v \<leftarrow> cs]"

text \<open>\<^verbatim>\<open>s.isnull().any()\<close> and \<^verbatim>\<open>s.notnull().any()\<close>.\<close>

definition isnull_any :: "'a option list \<Rightarrow> bool" where
  "isnull_any cs = list_ex (\<lambda>c. c = None) cs"

definition notnull_any :: "'a option list \<Rightarrow> bool" where
  "notnull_any cs = list_ex (\<lambda>c. c \<noteq> None) cs"

text \<open>
  Arithmetic of floating point on values that are not \<open>NaN\<close>; the result \<open>None\<close> is
  \<open>NaN\<close>: the sum of the two opposite infinities, and zero times an infinity.
\<close>

fun fl_neg :: "float64 \<Rightarrow> float64" where
  "fl_neg (Finite a) = Finite (- a)"
| "fl_neg PosInf = NegInf"
| "fl_neg NegInf = PosInf"

fun fl_add :: "float64 \<Rightarrow> float64 \<Rightarrow> float64 option" where
  "fl_add (Finite a) (Finite b) = Some (Finite (a + b))"
| "fl_add (Finite a) PosInf = Some PosInf"
| "fl_add (Finite a) NegInf = Some NegInf"
| "fl_add PosInf (Finite b) = Some PosInf"
| "fl_add PosInf PosInf = Some PosInf"
| "fl_add PosInf NegInf = None"
| "fl_add NegInf (Finite b) = Some NegInf"
| "fl_add NegInf PosInf = None"
| "fl_add NegInf NegInf = Some NegInf"

definition fl_sub :: "float64 \<Rightarrow> float64 \<Rightarrow> float64 option" where
  "fl_sub a b = fl_add a (fl_neg b)"

text \<open>A finite factor times an infinity.\<close>

definition scale_inf :: "rat \<Rightarrow> float64 \<Rightarrow> float64 option" where
  "scale_inf a i = (if a = 0 then None else if 0 < a then Some i else Some (fl_neg i))"

fun fl_mul :: "float64 \<Rightarrow> float64 \<Rightarrow> float64 option" where
  "fl_mul (Finite a) (Finite b) = Some (Finite (a * b))"
| "fl_mul (Finite a) PosInf = scale_inf a PosInf"
| "fl_mul (Finite a) NegInf = scale_inf a NegInf"
| "fl_mul PosInf (Finite b) = scale_inf b PosInf"
| "fl_mul NegInf (Finite b) = scale_inf b NegInf"
| "fl_mul PosInf PosInf = Some PosInf"
| "fl_mul PosInf NegInf = Some NegInf"
| "fl_mul NegInf PosInf = Some NegInf"
| "fl_mul NegInf NegInf = Some PosInf"

fun fl_less :: "float64 \<Rightarrow> float64 \<Rightarrow> bool" where
  "fl_less (Finite a) (Finite b) = (a < b)"
| "fl_less (Finite a) PosInf = True"
| "fl_less (Finite a) NegInf = False"
| "fl_less PosInf b = False"
| "fl_less NegInf (Finite b) = True"
| "fl_less NegInf PosInf = True"
| "fl_less NegInf NegInf = False"

text \<open>A sum divided by the number of values, which is positive.\<close>

fun fl_div_count :: "float64 \<Rightarrow> nat \<Rightarrow> float64" where
  "fl_div_count (Finite a) n = Finite (a / rat_of_nat n)"
| "fl_div_count PosInf n = PosInf"
| "fl_div_count NegInf n = NegInf"

text \<open>The sum of the values of a column, from zero on; once \<open>NaN\<close>, it stays \<open>NaN\<close>.\<close>

definition nansum :: "float64 list \<Rightarrow> float64 option" where
  "nansum vs = foldl (\<lambda>acc v. Option.bind acc (\<lambda>a. fl_add a v)) (Some (Finite 0)) vs"

text \<open>
  \<^verbatim>\<open>s.mean()\<close> skips the missing cells: it is the sum of the other cells divided by
  their number, \<open>NaN\<close> when there is no other cell, and \<open>NaN\<close> when the sum is (the column
  holds both infinities).
\<close>

definition mean :: "float64 option list \<Rightarrow> float64 option" where
  "mean cs =
     (let vs = dropna cs in
      if vs = [] then None
      else map_option (\<lambda>the_sum. fl_div_count the_sum (length vs)) (nansum vs))"

text \<open>
  \<^verbatim>\<open>self.df[col].fillna(v, inplace=True)\<close>, which writes the filled column back to
  the frame (pandas before copy-on-write); filling with \<open>NaN\<close> changes nothing.
\<close>

definition fillna :: "'a option \<Rightarrow> 'a option list \<Rightarrow> 'a option list" where
  "fillna v cs =
     (case v of
        None \<Rightarrow> cs
      | Some x \<Rightarrow> map (\<lambda>c. case c of None \<Rightarrow> Some x | Some y \<Rightarrow> Some y) cs)"

text \<open>
  \<^verbatim>\<open>s.mode()\<close>: the values that occur most often among the cells that are not missing,
  each once, sorted in ascending order (pandas sorts the modes it has found).
\<close>

definition mode :: "string option list \<Rightarrow> string list" where
  "mode cs =
     (let vs = dropna cs;
          highest = fold max (map (count_list vs) vs) 0
      in sort (remdups (filter (\<lambda>v. count_list vs v = highest) vs)))"

text \<open>\<^verbatim>\<open>s[0]\<close> on a series with the default index: \<open>KeyError\<close> when it is empty.\<close>

definition at0 :: "'a list \<Rightarrow> error + 'a" where
  "at0 xs = (case xs of [] \<Rightarrow> Inl KeyError | x # _ \<Rightarrow> Inr x)"

text \<open>
  \<^verbatim>\<open>s.quantile(q)\<close> for \<open>0 \<le> q \<le> 1\<close>, over the cells that are not missing; \<open>NaN\<close>
  when there is none. On finite values it is the default linear interpolation between the
  two neighbours of position \<open>q * (n - 1)\<close> in the sorted values. What numpy's interpolation
  returns on values that include an infinity is not modelled: it is the parameter
  \<open>np_percentile\<close>, a function from \<open>q\<close> and the values.
\<close>

type_synonym percentile = "rat \<Rightarrow> float64 list \<Rightarrow> float64 option"

definition is_finite :: "float64 \<Rightarrow> bool" where
  "is_finite v = (case v of Finite a \<Rightarrow> True | _ \<Rightarrow> False)"

definition finite_values :: "float64 list \<Rightarrow> rat list" where
  "finite_values vs = concat (map (\<lambda>v. case v of Finite a \<Rightarrow> [a] | _ \<Rightarrow> []) vs)"

definition quantile :: "percentile \<Rightarrow> rat \<Rightarrow> float64 option list \<Rightarrow> float64 option" where
  "quantile np_percentile q cs =
     (let vs = dropna cs in
      if vs = [] then None
      else if list_all is_finite vs then
        (let xs = sort (finite_values vs);
             n = length xs;
             h = q * rat_of_nat (n - 1);
             lo = nat \<lfloor>h\<rfloor>;
             hi = nat \<lceil>h\<rceil>
         in Some (Finite (xs ! lo + (xs ! hi - xs ! lo) * (h - rat_of_nat lo))))
      else np_percentile q vs)"

text \<open>Arithmetic and comparison with \<open>NaN\<close>: \<open>NaN\<close> propagates, and compares false.\<close>

definition nan_op ::
  "(float64 \<Rightarrow> float64 \<Rightarrow> float64 option) \<Rightarrow> float64 option \<Rightarrow> float64 option \<Rightarrow> float64 option" where
  "nan_op f a b = (case (a, b) of (Some x, Some y) \<Rightarrow> f x y | _ \<Rightarrow> None)"

definition nan_less :: "float64 option \<Rightarrow> float64 option \<Rightarrow> bool" where
  "nan_less a b = (case (a, b) of (Some x, Some y) \<Rightarrow> fl_less x y | _ \<Rightarrow> False)"

subsection \<open>\<open>impute_missing_values\<close>\<close>

text \<open>The body of \<^verbatim>\<open>for col in numeric_cols\<close>.\<close>

fun impute_numeric_col :: "column \<Rightarrow> column \<times> event list" where
  "impute_numeric_col (col, Numeric cs) =
     (if isnull_any cs then
        (let mean_value = mean cs
         in ((col, Numeric (fillna mean_value cs)), [ImputedMean col mean_value]))
      else ((col, Numeric cs), []))"
| "impute_numeric_col (col, x) = ((col, x), [])"

text \<open>The body of \<^verbatim>\<open>for col in categorical_cols\<close>; \<^verbatim>\<open>mode()[0]\<close> can raise.\<close>

fun impute_categorical_col :: "column \<Rightarrow> error + column \<times> event list" where
  "impute_categorical_col (col, Object cs) =
     (if isnull_any cs then
        (case at0 (mode cs) of
           Inl e \<Rightarrow> Inl e
         | Inr mode_value \<Rightarrow>
             Inr ((col, Object (fillna (Some mode_value) cs)), [ImputedMode col mode_value]))
      else Inr ((col, Object cs), []))"
| "impute_categorical_col (col, x) = Inr ((col, x), [])"

text \<open>
  The second loop has no handler: the first column that raises ends it. The result is the
  exception, if any, with the frame and the messages as they are at that moment (the columns
  from the raising one on are as they were).
\<close>

fun impute_categorical :: "dataset \<Rightarrow> error option \<times> dataset \<times> event list" where
  "impute_categorical [] = (None, [], [])"
| "impute_categorical (c # cs) =
     (case impute_categorical_col c of
        Inl e \<Rightarrow> (Some e, c # cs, [])
      | Inr (c', es) \<Rightarrow>
          (case impute_categorical cs of
             (r, cs', es') \<Rightarrow> (r, c' # cs', es @ es')))"

definition impute_missing_values :: "cleaner \<Rightarrow> error option \<times> cleaner" where
  "impute_missing_values s =
     (case for_each_column impute_numeric_col (df s) of
        (d1, es1) \<Rightarrow>
          (case impute_categorical d1 of
             (r, d2, es2) \<Rightarrow> (r, s\<lparr>df := d2, out := out s @ es1 @ es2\<rparr>)))"

subsection \<open>\<open>knn_imputation\<close>\<close>

text \<open>
  \<open>KNNImputer(n_neighbors=k).fit_transform\<close> is code of scikit-learn, not of this repository:
  it is a parameter of the model, a function from \<open>k\<close> and the numeric columns to either an
  exception or the array of imputed columns.
\<close>

type_synonym imputer = "int \<Rightarrow> float64 option list list \<Rightarrow> error + float64 option list list"

text \<open>\<^verbatim>\<open>self.df.select_dtypes(include=[np.number])\<close>, as labelled columns.\<close>

definition numeric_columns :: "dataset \<Rightarrow> (string \<times> float64 option list) list" where
  "numeric_columns d = concat (map (\<lambda>c. case c of (col, Numeric cs) \<Rightarrow> [(col, cs)] | _ \<Rightarrow> []) d)"

text \<open>\<^verbatim>\<open>self.df[col] = values\<close> for a column that exists.\<close>

definition set_column :: "string \<Rightarrow> coldata \<Rightarrow> dataset \<Rightarrow> dataset" where
  "set_column col v d = map (\<lambda>c. if fst c = col then (col, v) else c) d"

text \<open>
  \<^verbatim>\<open>for i, col in enumerate(numeric_data.columns): self.df[col] = imputed_data[:, i]\<close>.
  Taking column \<open>i\<close> of an array with fewer columns raises \<open>IndexError\<close>, and assigning
  an array whose length is not the number of rows raises \<open>ValueError\<close>; the columns assigned
  before stay assigned.
\<close>

fun assign_columns ::
  "nat \<Rightarrow> string list \<Rightarrow> float64 option list list \<Rightarrow> dataset \<Rightarrow> error option \<times> dataset" where
  "assign_columns i [] imputed_data d = (None, d)"
| "assign_columns i (col # cols) imputed_data d =
     (if length imputed_data \<le> i then (Some IndexError, d)
      else if length (imputed_data ! i) \<noteq> row_count d then (Some ValueError, d)
      else assign_columns (Suc i) cols imputed_data
             (set_column col (Numeric (imputed_data ! i)) d))"

text \<open>\<^verbatim>\<open>replace([np.inf, -np.inf], np.nan)\<close> on one column.\<close>

definition replace_inf :: "float64 option list \<Rightarrow> float64 option list" where
  "replace_inf cs = map (\<lambda>c. if c = Some PosInf \<or> c = Some NegInf then None else c) cs"

text \<open>
  The statements inside \<^verbatim>\<open>try:\<close>, with the exception they end with, if any.
  \<^verbatim>\<open>dropna(axis=1, how='all')\<close> keeps the columns that have a cell that is not
  missing. \<open>numeric_data\<close> has the rows of \<open>self.df\<close>.
\<close>

definition knn_imputation_body :: "imputer \<Rightarrow> cleaner \<Rightarrow> error option \<times> cleaner" where
  "knn_imputation_body fit_transform s =
     (let numeric_cols = numeric_columns (df s) in
      if length numeric_cols > 0 then
        (let numeric_data =
               filter (\<lambda>c. dropna (snd c) \<noteq> [])
                 (map (\<lambda>c. (fst c, replace_inf (snd c))) numeric_cols) in
         if length numeric_data > 0 then
           (case fit_transform (min 5 (int (row_count (df s)) - 1)) (map snd numeric_data) of
              Inl e \<Rightarrow> (Some e, s)
            | Inr imputed_data \<Rightarrow>
                (case assign_columns 0 (map fst numeric_data) imputed_data (df s) of
                   (Some e, d) \<Rightarrow> (Some e, s\<lparr>df := d\<rparr>)
                 | (None, d) \<Rightarrow>
                     (None, s\<lparr>df := d, out := out s @ [KnnCompleted (length numeric_data)]\<rparr>)))
         else (None, s\<lparr>out := out s @ [KnnNoSuitable]\<rparr>))
      else (None, s\<lparr>out := out s @ [KnnNoNumeric]\<rparr>))"

text \<open>\<^verbatim>\<open>except Exception as e:\<close> prints two lines and returns.\<close>

definition knn_imputation :: "imputer \<Rightarrow> cleaner \<Rightarrow> cleaner" where
  "knn_imputation fit_transform s =
     (case knn_imputation_body fit_transform s of
        (Some e, s') \<Rightarrow> s'\<lparr>out := out s' @ [KnnError e, Proceeding]\<rparr>
      | (None, s') \<Rightarrow> s')"

subsection \<open>\<open>handle_outliers\<close>\<close>

text \<open>
  \<open>Q1\<close>, \<open>Q3\<close>, \<open>IQR\<close> and the pair \<open>(lower_bound, upper_bound)\<close> of a column;
  \<open>1.5\<close> is the rational \<open>3 / 2\<close>.
\<close>

definition iqr_bounds ::
  "percentile \<Rightarrow> float64 option list \<Rightarrow> float64 option \<times> float64 option" where
  "iqr_bounds np_percentile cs =
     (let Q1 = quantile np_percentile (1 / 4) cs;
          Q3 = quantile np_percentile (3 / 4) cs;
          IQR = nan_op fl_sub Q3 Q1
      in (nan_op fl_sub Q1 (nan_op fl_mul (Some (Finite (3 / 2))) IQR),
          nan_op fl_add Q3 (nan_op fl_mul (Some (Finite (3 / 2))) IQR)))"

text \<open>
  The body of \<^verbatim>\<open>for col in numeric_cols\<close>. The two assignments through \<open>loc\<close> run one
  after the other, the second on the column the first has left; assigning a bound to a
  column of integers makes it a column of floats (pandas 1 and 2). No operation of the body
  raises in this model, so its handler is never entered.
\<close>

fun handle_outliers_col :: "percentile \<Rightarrow> column \<Rightarrow> column \<times> event list" where
  "handle_outliers_col np_percentile (col, Numeric cs) =
     (case iqr_bounds np_percentile cs of
        (lower_bound, upper_bound) \<Rightarrow>
          (let outliers = filter (\<lambda>c. nan_less c lower_bound \<or> nan_less upper_bound c) cs
           in if length outliers > 0 then
                (let cs1 = map (\<lambda>c. if nan_less c lower_bound then lower_bound else c) cs;
                     cs2 = map (\<lambda>c. if nan_less upper_bound c then upper_bound else c) cs1
                 in ((col, Numeric cs2),
                     [OutliersCapped col (length outliers) lower_bound upper_bound]))
              else ((col, Numeric cs), [])))"
| "handle_outliers_col np_percentile (col, x) = ((col, x), [])"

definition handle_outliers :: "percentile \<Rightarrow> cleaner \<Rightarrow> cleaner" where
  "handle_outliers np_percentile s =
     (case for_each_column (handle_outliers_col np_percentile) (df s) of
        (d, es) \<Rightarrow> s\<lparr>df := d, out := out s @ es\<rparr>)"

subsection \<open>\<open>convert_data_types\<close>\<close>

text \<open>\<^verbatim>\<open>'date' in col.lower()\<close>.\<close>

definition lower_char :: "char \<Rightarrow> char" where
  "lower_char c =
     (if CHR ''A'' \<le> c \<and> c \<le> CHR ''Z'' then char_of (of_char c + (32 :: nat)) else c)"

definition lower :: "string \<Rightarrow> string" where
  "lower s = map lower_char s"

fun contains :: "string \<Rightarrow> string \<Rightarrow> bool" where
  "contains [] sub = (sub = [])"
| "contains (c # s) sub = (take (length sub) (c # s) = sub \<or> contains s sub)"

text \<open>
  \<open>pd.to_datetime(series, errors='coerce')\<close> and \<open>pd.to_numeric(series, errors='coerce')\<close>
  are code of pandas, parameters of the model: the first a function from the column to either
  an exception or the parsed cells, the second the parser of one text, \<open>None\<close> for a text that
  is not a number (which \<open>coerce\<close> turns into a missing cell).
\<close>

type_synonym to_datetime = "coldata \<Rightarrow> error + int option list"
type_synonym to_numeric = "string \<Rightarrow> float64 option"

fun convert_date_col :: "to_datetime \<Rightarrow> column \<Rightarrow> column \<times> event list" where
  "convert_date_col to_datetime (col, x) =
     (if contains (lower col) ''date'' then
        (case to_datetime x of
           Inl e \<Rightarrow> ((col, x), [CouldNotConvert col e])
         | Inr converted \<Rightarrow> ((col, Datetime converted), [ConvertedDatetime col]))
      else ((col, x), []))"

fun convert_numeric_col :: "to_numeric \<Rightarrow> column \<Rightarrow> column \<times> event list" where
  "convert_numeric_col to_numeric (col, Object cs) =
     (let numeric_conversion = map (\<lambda>c. Option.bind c to_numeric) cs
      in if notnull_any numeric_conversion then
           ((col, Numeric numeric_conversion), [ConvertedNumeric col])
         else ((col, Object cs), []))"
| "convert_numeric_col to_numeric (col, x) = ((col, x), [])"

definition convert_data_types :: "to_datetime \<Rightarrow> to_numeric \<Rightarrow> cleaner \<Rightarrow> cleaner" where
  "convert_data_types to_datetime to_numeric s =
     (case for_each_column (convert_date_col to_datetime) (df s) of
        (d1, es1) \<Rightarrow>
          (case for_each_column (convert_numeric_col to_numeric) d1 of
             (d2, es2) \<Rightarrow> s\<lparr>df := d2, out := out s @ es1 @ es2\<rparr>))"

subsection \<open>\<open>clean_data\<close>\<close>

text \<open>
  The four steps in order; an exception of the first step leaves \<open>clean_data\<close> at once. The
  report that follows only reads the two frames, and the frame saved is \<open>df\<close> of the result.
\<close>

definition clean_data ::
  "to_datetime \<Rightarrow> to_numeric \<Rightarrow> imputer \<Rightarrow> percentile \<Rightarrow> cleaner \<Rightarrow> error option \<times> cleaner" where
  "clean_data to_datetime to_numeric fit_transform np_percentile s =
     (case impute_missing_values s of
        (Some e, s1) \<Rightarrow> (Some e, s1)
      | (None, s1) \<Rightarrow>
          (None, convert_data_types to_datetime to_numeric
                   (handle_outliers np_percentile (knn_imputation fit_transform s1))))"

section \<open>Library behaviour used in the examples\<close>

text \<open>
  The theorems below hold for every \<open>to_datetime\<close>, \<open>to_numeric\<close>, \<open>fit_transform\<close> and
  \<open>np_percentile\<close>. To evaluate the pipeline on a concrete frame, the functions here give
  what pandas, numpy and scikit-learn return on the inputs of the examples.
\<close>

text \<open>
  \<open>pd.to_numeric\<close> on a text made of decimal digits only is the number written; a text with
  a letter in it is not a number. (Texts with a sign, a point or an exponent are numbers for
  pandas too; no example uses one.)
\<close>

definition is_digit :: "char \<Rightarrow> bool" where
  "is_digit c = (CHR ''0'' \<le> c \<and> c \<le> CHR ''9'')"

definition to_numeric_digits :: to_numeric where
  "to_numeric_digits t =
     (if t \<noteq> [] \<and> list_all is_digit t
      then Some (Finite (rat_of_nat (fold (\<lambda>c acc. 10 * acc + (of_char c - 48)) t 0)))
      else None)"

text \<open>\<open>pd.to_datetime(errors='coerce')\<close> on a column none of whose cells is a date.\<close>

definition to_datetime_no_date :: to_datetime where
  "to_datetime_no_date x = Inr (replicate (ncells x) None)"

text \<open>
  \<open>KNNImputer\<close> rejects \<open>n_neighbors < 1\<close> with a \<open>ValueError\<close>, and returns a matrix that
  has no missing cell as it is. (On a matrix with missing cells it returns neighbour
  estimates; no example uses one.)
\<close>

definition knn_complete :: imputer where
  "knn_complete n_neighbors X =
     (if n_neighbors < 1 then Inl ValueError
      else if list_all (\<lambda>column. \<not> isnull_any column) X then Inr X
      else Inl LibraryError)"

text \<open>
  The quantile of values that include an infinity, for the examples whose columns have none:
  it is never asked for there.
\<close>

definition percentile_unused :: percentile where
  "percentile_unused q vs = None"

section \<open>Notions of the specification\<close>

text \<open>Every missing cell replaced by the one value \<open>v\<close>, the other cells kept.\<close>

definition filled_with :: "'a \<Rightarrow> 'a option list \<Rightarrow> 'a option list" where
  "filled_with v cs = map (\<lambda>c. case c of None \<Rightarrow> Some v | Some y \<Rightarrow> Some y) cs"

definition arithmetic_mean :: "rat list \<Rightarrow> rat" where
  "arithmetic_mean vs = sum_list vs / rat_of_nat (length vs)"

text \<open>The order of the values: \<open>-inf\<close> below and \<open>+inf\<close> above every finite number.\<close>

fun fl_le :: "float64 \<Rightarrow> float64 \<Rightarrow> bool" where
  "fl_le (Finite a) (Finite b) = (a \<le> b)"
| "fl_le (Finite a) PosInf = True"
| "fl_le (Finite a) NegInf = False"
| "fl_le PosInf (Finite b) = False"
| "fl_le PosInf PosInf = True"
| "fl_le PosInf NegInf = False"
| "fl_le NegInf b = True"

text \<open>The values hold the two opposite infinities: their sum, and so their mean, is \<open>NaN\<close>.\<close>

definition both_infinities :: "float64 list \<Rightarrow> bool" where
  "both_infinities vs = (PosInf \<in> set vs \<and> NegInf \<in> set vs)"

text \<open>
  The mean of values that do not hold both infinities: the infinity they hold, if they hold
  one, and the arithmetic mean of the values if all are finite.
\<close>

definition mean_of :: "float64 list \<Rightarrow> float64" where
  "mean_of vs =
     (if PosInf \<in> set vs then PosInf
      else if NegInf \<in> set vs then NegInf
      else Finite (arithmetic_mean (finite_values vs)))"

text \<open>\<open>m\<close> is one of the values of \<open>vs\<close> and none occurs more often.\<close>

definition most_frequent :: "'a \<Rightarrow> 'a list \<Rightarrow> bool" where
  "most_frequent m vs = (m \<in> set vs \<and> (\<forall>v \<in> set vs. count_list vs v \<le> count_list vs m))"

text \<open>The most frequent value that comes first in the column, if the column has a value.\<close>

definition first_most_frequent :: "'a list \<Rightarrow> 'a option" where
  "first_most_frequent vs = find (\<lambda>m. list_all (\<lambda>v. count_list vs v \<le> count_list vs m) vs) vs"

definition missing_cells :: "coldata \<Rightarrow> nat" where
  "missing_cells x =
     (case x of
        Numeric cs \<Rightarrow> length (filter (\<lambda>c. c = None) cs)
      | Object cs \<Rightarrow> length (filter (\<lambda>c. c = None) cs)
      | Datetime cs \<Rightarrow> length (filter (\<lambda>c. c = None) cs))"

text \<open>
  A column as \<open>read_csv\<close> infers it: numeric, or text; a column of a file whose cells are
  all empty is numeric, so a text column with rows has a cell that is not missing.
\<close>

definition loaded_column :: "column \<Rightarrow> bool" where
  "loaded_column c =
     (case snd c of
        Numeric cs \<Rightarrow> True
      | Object cs \<Rightarrow> cs = [] \<or> dropna cs \<noteq> []
      | Datetime cs \<Rightarrow> False)"

text \<open>The number of cells of each column, in column order.\<close>

definition cell_counts :: "dataset \<Rightarrow> nat list" where
  "cell_counts d = map (\<lambda>c. ncells (snd c)) d"

text \<open>Every column of a frame has one cell per row.\<close>

definition rectangular :: "dataset \<Rightarrow> bool" where
  "rectangular d = list_all (\<lambda>c. ncells (snd c) = row_count d) d"

text \<open>
  On an argument none of whose columns is all missing, the array \<open>fit_transform\<close> returns
  has the shape of the argument, as scikit-learn guarantees.
\<close>

definition shape_preserving :: "imputer \<Rightarrow> bool" where
  "shape_preserving fit_transform =
     (\<forall>k X Y. list_all (\<lambda>column. dropna column \<noteq> []) X \<and> fit_transform k X = Inr Y \<longrightarrow>
        map length Y = map length X)"

text \<open>\<open>to_datetime\<close> returns a series over the index of its argument.\<close>

definition index_preserving :: "to_datetime \<Rightarrow> bool" where
  "index_preserving to_datetime =
     (\<forall>x converted. to_datetime x = Inr converted \<longrightarrow> length converted = ncells x)"

section \<open>Properties of the splitter\<close>

subsection \<open>Delimiter detection\<close>

lemma py_index_first:
  "y \<in> set xs \<Longrightarrow> \<exists>i<length xs. py_index xs y = Inr i \<and> xs ! i = y \<and> (\<forall>j<i. xs ! j \<noteq> y)"
proof (induction xs)
  case Nil
  then show ?case by simp
next
  case (Cons x xs)
  show ?case
  proof (cases "x = y")
    case True
    then show ?thesis by simp
  next
    case False
    with Cons.prems have "y \<in> set xs" by simp
    from Cons.IH [OF this] obtain i where i: "i < length xs" "py_index xs y = Inr i"
      "xs ! i = y" "\<forall>j<i. xs ! j \<noteq> y" by blast
    have "\<forall>j<Suc i. (x # xs) ! j \<noteq> y"
    proof (intro allI impI)
      fix j assume "j < Suc i"
      then show "(x # xs) ! j \<noteq> y" using False i(4) by (cases j) simp_all
    qed
    with False i(1,2,3) show ?thesis by (intro exI [of _ "Suc i"]) simp
  qed
qed

lemma py_max_Max: "py_max (x # xs) = Inr (Max (set (x # xs)))"
  using Max.set_eq_fold [of x xs] by simp

text \<open>
  C10. The delimiter detected is a candidate whose count in the first line is the highest,
  and every candidate before it in the order comma, tab, semicolon, pipe has a strictly
  smaller count: of several candidates with the highest count the earliest is chosen. A
  first line with none of the four characters gives the comma.
\<close>

theorem detect_delimiter_first_maximal:
  "(\<exists>i<length delimiters.
      detect_delimiter first_line = Inr (delimiters ! i) \<and>
      (\<forall>j<length delimiters.
         count_list first_line (delimiters ! j) \<le> count_list first_line (delimiters ! i)) \<and>
      (\<forall>j<i. count_list first_line (delimiters ! j) < count_list first_line (delimiters ! i))) \<and>
   (set first_line \<inter> set delimiters = {} \<longrightarrow> detect_delimiter first_line = Inr CHR '','')"
proof
  define counts where "counts = map (count_list first_line) delimiters"
  define m where "m = Max (set counts)"
  have len: "length counts = length delimiters" by (simp add: counts_def)
  have ne: "counts \<noteq> []" by (simp add: counts_def delimiters_def)
  then obtain c cs where ccs: "counts = c # cs" by (cases counts) auto
  have pm: "py_max counts = Inr m" unfolding m_def ccs by (rule py_max_Max)
  have "m \<in> set counts" unfolding m_def using ne by (intro Max_in) simp_all
  from py_index_first [OF this] obtain i where i: "i < length counts" "py_index counts m = Inr i"
    "counts ! i = m" "\<forall>j<i. counts ! j \<noteq> m" by blast
  have le: "counts ! j \<le> m" if "j < length counts" for j
    unfolding m_def using that by (intro Max_ge) simp_all
  have nth: "counts ! j = count_list first_line (delimiters ! j)" if "j < length delimiters" for j
    using that by (simp add: counts_def)
  have det: "detect_delimiter first_line = Inr (delimiters ! i)"
    using pm i(2) by (simp add: detect_delimiter_def counts_def [symmetric])
  have il: "i < length delimiters" using i(1) len by simp
  have a: "\<forall>j<length delimiters.
         count_list first_line (delimiters ! j) \<le> count_list first_line (delimiters ! i)"
    using le i(3) nth il len by metis
  have b: "\<forall>j<i. count_list first_line (delimiters ! j) < count_list first_line (delimiters ! i)"
  proof (intro allI impI)
    fix j assume ji: "j < i"
    then have jl: "j < length delimiters" using il by simp
    have "counts ! j \<le> m" using le jl len by simp
    moreover have "counts ! j \<noteq> m" using i(4) ji by simp
    ultimately have "counts ! j < counts ! i" using i(3) by simp
    then show "count_list first_line (delimiters ! j) < count_list first_line (delimiters ! i)"
      using nth jl il by simp
  qed
  show "\<exists>i<length delimiters.
      detect_delimiter first_line = Inr (delimiters ! i) \<and>
      (\<forall>j<length delimiters.
         count_list first_line (delimiters ! j) \<le> count_list first_line (delimiters ! i)) \<and>
      (\<forall>j<i. count_list first_line (delimiters ! j) < count_list first_line (delimiters ! i))"
    using il det a b by blast
next
  show "set first_line \<inter> set delimiters = {} \<longrightarrow> detect_delimiter first_line = Inr CHR '',''"
    by (auto simp add: detect_delimiter_def delimiters_def)
qed

theorem detect_delimiter_first_maximal_witness:
  "detect_delimiter ''a;b|c'' = Inr CHR '';'' \<and> detect_delimiter ''id name'' = Inr CHR '',''"
proof
  let ?l = "''a;b|c''"
  from detect_delimiter_first_maximal [of ?l]
  obtain i where i: "i < length delimiters" "detect_delimiter ?l = Inr (delimiters ! i)"
    "\<forall>j<length delimiters. count_list ?l (delimiters ! j) \<le> count_list ?l (delimiters ! i)"
    "\<forall>j<i. count_list ?l (delimiters ! j) < count_list ?l (delimiters ! i)"
    by blast
  have c0: "count_list ?l (delimiters ! 0) = 0" by (simp add: delimiters_def)
  have c1: "count_list ?l (delimiters ! 1) = 0" by (simp add: delimiters_def)
  have c2: "count_list ?l (delimiters ! 2) = 1" by (simp add: delimiters_def)
  have c3: "count_list ?l (delimiters ! 3) = 1" by (simp add: delimiters_def)
  have len: "length delimiters = 4" by (simp add: delimiters_def)
  from i(1) len consider "i = 0" | "i = 1" | "i = 2" | "i = 3" by linarith
  then have "i = 2"
  proof cases
    case 1
    from i(3) len have "count_list ?l (delimiters ! 2) \<le> count_list ?l (delimiters ! i)" by simp
    with 1 c0 c2 show ?thesis by simp
  next
    case 2
    from i(3) len have "count_list ?l (delimiters ! 2) \<le> count_list ?l (delimiters ! i)" by simp
    with 2 c1 c2 show ?thesis by simp
  next
    case 3
    then show ?thesis .
  next
    case 4
    with i(4) have "count_list ?l (delimiters ! 2) < count_list ?l (delimiters ! 3)" by simp
    with c2 c3 show ?thesis by simp
  qed
  with i(2) show "detect_delimiter ?l = Inr CHR '';''" by (simp add: delimiters_def)
next
  show "detect_delimiter ''id name'' = Inr CHR '',''"
    using detect_delimiter_first_maximal [of "''id name''"] by (simp add: delimiters_def)
qed

subsection \<open>The parts\<close>

lemma ceiling_rat_of_nat: "\<lceil>rat_of_nat a / rat_of_nat b\<rceil> = - ((- int a) div int b)"
proof -
  have "\<lceil>rat_of_nat a / rat_of_nat b\<rceil> = - \<lfloor>- (rat_of_nat a / rat_of_nat b)\<rfloor>"
    by (simp add: ceiling_def)
  also have "- (rat_of_nat a / rat_of_nat b) = of_int (- int a) / of_int (int b)"
    by simp
  also have "\<lfloor>(of_int (- int a) / of_int (int b)) :: rat\<rfloor> = (- int a) div int b"
    by (rule floor_divide_of_int_eq)
  finally show ?thesis .
qed

lemma rows_per_split_int: "rows_per_split r n = nat (- ((- int r) div int n))"
  by (simp add: rows_per_split_def ceiling_rat_of_nat)

lemma rows_per_split_covers:
  assumes "0 < n"
  shows "r \<le> n * rows_per_split r n"
proof -
  let ?q = "rat_of_nat r / rat_of_nat n"
  have pos: "0 \<le> ?q" by simp
  then have "- 1 < ?q" by linarith
  then have c0: "0 \<le> \<lceil>?q\<rceil>" by simp
  have "?q \<le> of_int \<lceil>?q\<rceil>" by (rule le_of_int_ceiling)
  also have "of_int \<lceil>?q\<rceil> = rat_of_nat (rows_per_split r n)"
    using c0 by (simp add: rows_per_split_def)
  finally have "rat_of_nat r \<le> rat_of_nat n * rat_of_nat (rows_per_split r n)"
    using assms by (simp add: field_simps)
  then have "rat_of_nat r \<le> rat_of_nat (n * rows_per_split r n)" by simp
  then show ?thesis by (simp only: of_nat_le_iff)
qed

lemma iloc_range:
  "iloc (i * c) (min (c + i * c) (length rows)) rows = take c (drop (i * c) rows)"
  by (cases "c + i * c \<le> length rows") (simp_all add: iloc_def min_def)

lemma split_parts_chunks:
  "split_parts n rows =
     map (\<lambda>i. take (rows_per_split (length rows) n)
                 (drop (i * rows_per_split (length rows) n) rows)) [0..<n]"
  by (simp add: split_parts_def split_range_def Let_def iloc_range del: upt_Suc)

lemma concat_chunks:
  "concat (map (\<lambda>i. take c (drop (i * c) xs)) [0..<n]) = take (n * c) xs"
proof (induction n)
  case 0
  show ?case by simp
next
  case (Suc n)
  have "take (n * c) xs @ take c (drop (n * c) xs) = take (n * c + c) xs"
    by (simp add: take_add)
  moreover have "Suc n * c = n * c + c" by simp
  ultimately show ?case using Suc by (simp del: mult_Suc)
qed

lemma concat_split_parts:
  assumes "0 < n"
  shows "concat (split_parts n rows) = rows"
  using rows_per_split_covers [OF assms, of "length rows"]
  by (simp add: split_parts_chunks concat_chunks)

lemma sum_length_split_parts:
  assumes "0 < n"
  shows "sum_list (map length (split_parts n rows)) = length rows"
  using concat_split_parts [OF assms, of rows] length_concat [of "split_parts n rows"]
  by simp

lemma split_range_ordered:
  assumes "i < j"
  shows "snd (split_range r n i) \<le> fst (split_range r n j)"
proof -
  have "Suc i \<le> j" using assms by simp
  then have "Suc i * rows_per_split r n \<le> j * rows_per_split r n"
    by (rule mult_le_mono1)
  then show ?thesis by (simp add: split_range_def Let_def)
qed

lemma split_parts_100_12:
  "length rows = 100 \<Longrightarrow> map length (split_parts 12 rows) = [9, 9, 9, 9, 9, 9, 9, 9, 9, 9, 9, 1]"
  by (simp add: split_parts_chunks rows_per_split_int upt_rec)

text \<open>
  C3, as the code has it. For a split count \<open>N \<ge> 1\<close> and \<open>c = ceil(R / N)\<close>, the primary path
  writes \<open>N\<close> parts; part \<open>i\<close> (from 0) holds the rows from position \<open>i * c\<close> on, at most \<open>c\<close>
  of them, in the original order, so it has \<open>min c (R - i * c)\<close> rows: \<open>c\<close> rows while that
  many remain, then the rows that are left, then none. The row ranges of two parts do not
  overlap, the row counts sum to \<open>R\<close>, and the parts concatenated in part order are the
  original rows. 100 rows in 12 parts are 11 parts of 9 rows and one of 1 row.
\<close>

theorem split_csv_contiguous_ranges:
  assumes "1 \<le> N"
  shows "\<exists>parts. split_csv N rows = Inr parts \<and>
           length parts = nat N \<and>
           (\<forall>i<nat N. parts ! i =
              take (rows_per_split (length rows) (nat N))
                (drop (i * rows_per_split (length rows) (nat N)) rows)) \<and>
           (\<forall>i<nat N. length (parts ! i) =
              min (rows_per_split (length rows) (nat N))
                (length rows - i * rows_per_split (length rows) (nat N))) \<and>
           (\<forall>i j. i < j \<longrightarrow>
              snd (split_range (length rows) (nat N) i) \<le> fst (split_range (length rows) (nat N) j)) \<and>
           sum_list (map length parts) = length rows \<and>
           concat parts = rows \<and>
           (length rows = 100 \<and> N = 12 \<longrightarrow>
              map length parts = [9, 9, 9, 9, 9, 9, 9, 9, 9, 9, 9, 1])"
proof -
  have n: "0 < nat N" using assms by simp
  have sc: "split_csv N rows = Inr (split_parts (nat N) rows)"
    using assms by (simp add: split_csv_def)
  have len: "length (split_parts (nat N) rows) = nat N"
    by (simp add: split_parts_def)
  have nth: "\<forall>i<nat N. split_parts (nat N) rows ! i =
              take (rows_per_split (length rows) (nat N))
                (drop (i * rows_per_split (length rows) (nat N)) rows)"
    by (simp add: split_parts_chunks)
  have lens: "\<forall>i<nat N. length (split_parts (nat N) rows ! i) =
              min (rows_per_split (length rows) (nat N))
                (length rows - i * rows_per_split (length rows) (nat N))"
    by (simp add: split_parts_chunks min.commute)
  have ord: "\<forall>i j. i < j \<longrightarrow>
              snd (split_range (length rows) (nat N) i) \<le> fst (split_range (length rows) (nat N) j)"
    using split_range_ordered by blast
  have scen: "length rows = 100 \<and> N = 12 \<longrightarrow>
      map length (split_parts (nat N) rows) = [9, 9, 9, 9, 9, 9, 9, 9, 9, 9, 9, 1]"
  proof
    assume a: "length rows = 100 \<and> N = 12"
    then have "nat N = 12" by simp
    with a split_parts_100_12 [of rows]
    show "map length (split_parts (nat N) rows) = [9, 9, 9, 9, 9, 9, 9, 9, 9, 9, 9, 1]"
      by (simp only:)
  qed
  have sm: "sum_list (map length (split_parts (nat N) rows)) = length rows"
    by (rule sum_length_split_parts [OF n])
  have cc: "concat (split_parts (nat N) rows) = rows"
    by (rule concat_split_parts [OF n])
  show ?thesis
    by (intro exI [of _ "split_parts (nat N) rows"] conjI sc len nth lens ord sm cc scen)
qed

theorem split_csv_contiguous_ranges_witness:
  "(1 :: int) \<le> 2 \<and>
   (\<exists>parts. split_csv 2 [10, 20, 30 :: nat] = Inr parts \<and> length parts = 2 \<and>
      parts ! 0 = [10, 20] \<and> parts ! 1 = [30] \<and> concat parts = [10, 20, 30])"
proof -
  have one: "(1 :: int) \<le> 2" by simp
  obtain parts where p: "split_csv 2 [10, 20, 30 :: nat] = Inr parts" "length parts = nat 2"
    "\<forall>i<nat 2. parts ! i =
       take (rows_per_split (length [10, 20, 30 :: nat]) (nat 2))
         (drop (i * rows_per_split (length [10, 20, 30 :: nat]) (nat 2)) [10, 20, 30])"
    "concat parts = [10, 20, 30]"
    using split_csv_contiguous_ranges [OF one, of "[10, 20, 30 :: nat]"] by blast
  have r: "rows_per_split (length [10, 20, 30 :: nat]) (nat 2) = 2"
    by (simp add: rows_per_split_int)
  have p0: "parts ! 0 = [10, 20]" using p(3) [rule_format, of 0] unfolding r by simp
  have p1: "parts ! 1 = [30]" using p(3) [rule_format, of 1] unfolding r by simp
  have l: "length parts = 2" using p(2) by simp
  show ?thesis using one p(1) l p0 p1 p(4) by blast
qed

text \<open>
  Five rows in four parts: \<open>ceil(5 / 4) = 2\<close>, and the parts have 2, 2, 1 and 0 rows. The
  third part is not the last and has fewer than 2 rows; the last has none.
\<close>

theorem split_csv_five_rows_four_parts:
  "split_csv 4 [0, 1, 2, 3, 4 :: nat] = Inr [[0, 1], [2, 3], [4], []] \<and>
   rows_per_split 5 4 = 2 \<and>
   length ([[0, 1], [2, 3], [4], []] ! 2 :: nat list) \<noteq> rows_per_split 5 4"
  by (simp add: split_csv_def split_parts_chunks rows_per_split_int upt_rec)

section \<open>Properties of the cleaning pipeline\<close>

subsection \<open>Series operations\<close>



lemma isnull_any_iff: "isnull_any cs \<longleftrightarrow> None \<in> set cs"
  by (auto simp add: isnull_any_def list_ex_iff)

lemma notnull_any_iff: "notnull_any cs \<longleftrightarrow> (\<exists>v. Some v \<in> set cs)"
  by (auto simp add: notnull_any_def list_ex_iff)

lemma fillna_Some: "fillna (Some v) cs = filled_with v cs"
  by (simp add: fillna_def filled_with_def)

lemma length_fillna: "length (fillna v cs) = length cs"
  by (cases v) (simp_all add: fillna_def)

lemma length_filled_with: "length (filled_with v cs) = length cs"
  by (simp add: filled_with_def)

lemma filled_with_no_missing: "None \<notin> set (filled_with v cs)"
  by (auto simp add: filled_with_def split: option.splits)

lemma filled_with_complete:
  assumes "None \<notin> set cs"
  shows "filled_with v cs = cs"
  unfolding filled_with_def
proof (intro map_idI)
  fix x assume "x \<in> set cs"
  with assms obtain y where "x = Some y" by (cases x) auto
  then show "(case x of None \<Rightarrow> Some v | Some y \<Rightarrow> Some y) = x" by simp
qed

lemma length_finite_values:
  "PosInf \<notin> set vs \<Longrightarrow> NegInf \<notin> set vs \<Longrightarrow> length (finite_values vs) = length vs"
proof (induction vs)
  case Nil
  show ?case by (simp add: finite_values_def)
next
  case (Cons v vs)
  then show ?case by (cases v) (simp_all add: finite_values_def)
qed

lemma foldl_fl_add_None:
  "foldl (\<lambda>acc v. Option.bind acc (\<lambda>a. fl_add a v)) None vs = None"
  by (induction vs) simp_all

lemma foldl_fl_add:
  "foldl (\<lambda>acc v. Option.bind acc (\<lambda>a. fl_add a v)) (Some a) vs =
     (if PosInf \<in> set (a # vs) then (if NegInf \<in> set (a # vs) then None else Some PosInf)
      else if NegInf \<in> set (a # vs) then Some NegInf
      else Some (Finite (sum_list (finite_values (a # vs)))))"
proof (induction vs arbitrary: a)
  case Nil
  show ?case by (cases a) (simp_all add: finite_values_def)
next
  case (Cons v vs)
  show ?case
  proof (cases "fl_add a v")
    case None
    then have "(a = PosInf \<and> v = NegInf) \<or> (a = NegInf \<and> v = PosInf)"
      by (cases a; cases v) simp_all
    with None show ?thesis by (auto simp add: foldl_fl_add_None)
  next
    case (Some b)
    have "foldl (\<lambda>acc v. Option.bind acc (\<lambda>a. fl_add a v)) (Some a) (v # vs) =
          foldl (\<lambda>acc v. Option.bind acc (\<lambda>a. fl_add a v)) (Some b) vs"
      using Some by simp
    also have "\<dots> =
     (if PosInf \<in> set (b # vs) then (if NegInf \<in> set (b # vs) then None else Some PosInf)
      else if NegInf \<in> set (b # vs) then Some NegInf
      else Some (Finite (sum_list (finite_values (b # vs)))))"
      by (rule Cons.IH)
    also have "\<dots> =
     (if PosInf \<in> set (a # v # vs) then (if NegInf \<in> set (a # v # vs) then None else Some PosInf)
      else if NegInf \<in> set (a # v # vs) then Some NegInf
      else Some (Finite (sum_list (finite_values (a # v # vs)))))"
      using Some by (cases a; cases v) (auto simp add: finite_values_def)
    finally show ?thesis .
  qed
qed

lemma nansum_cases:
  "nansum vs =
     (if PosInf \<in> set vs then (if NegInf \<in> set vs then None else Some PosInf)
      else if NegInf \<in> set vs then Some NegInf
      else Some (Finite (sum_list (finite_values vs))))"
  unfolding nansum_def foldl_fl_add by (simp add: finite_values_def)

lemma mean_both_infinities: "both_infinities (dropna cs) \<Longrightarrow> mean cs = None"
  by (auto simp add: mean_def Let_def nansum_cases both_infinities_def)

lemma mean_defined:
  assumes "dropna cs \<noteq> []" and "\<not> both_infinities (dropna cs)"
  shows "mean cs = Some (mean_of (dropna cs))"
proof -
  have "length (finite_values (dropna cs)) = length (dropna cs)"
    if "PosInf \<notin> set (dropna cs)" and "NegInf \<notin> set (dropna cs)"
    using that by (rule length_finite_values)
  with assms show ?thesis
    by (auto simp add: mean_def Let_def nansum_cases both_infinities_def mean_of_def
        arithmetic_mean_def)
qed

lemma count_list_pos: "v \<in> set vs \<Longrightarrow> 0 < count_list vs v"
  by (cases "count_list vs v") (auto simp add: count_list_0_iff)

lemma highest_count:
  assumes "vs \<noteq> []"
  defines "highest \<equiv> fold max (map (count_list vs) vs) 0"
  shows "\<exists>m \<in> set vs. count_list vs m = highest" and "\<forall>v \<in> set vs. count_list vs v \<le> highest"
proof -
  have hi: "highest = Max (set (0 # map (count_list vs) vs))"
    unfolding highest_def using Max.set_eq_fold [of 0 "map (count_list vs) vs"] by simp
  show le: "\<forall>v \<in> set vs. count_list vs v \<le> highest"
    unfolding hi by (auto intro!: Max_ge)
  obtain v where v: "v \<in> set vs" using assms(1) by (cases vs) auto
  then have "0 < count_list vs v" by (rule count_list_pos)
  with le v have pos: "0 < highest" by (metis less_le_trans)
  have "highest \<in> set (0 # map (count_list vs) vs)"
    unfolding hi by (rule Max_in) simp_all
  with pos show "\<exists>m \<in> set vs. count_list vs m = highest" by auto
qed

lemma most_frequent_iff:
  assumes "vs \<noteq> []"
  shows "most_frequent m vs \<longleftrightarrow>
    m \<in> set vs \<and> count_list vs m = fold max (map (count_list vs) vs) 0"
  using highest_count [OF assms] unfolding most_frequent_def
  by (metis le_antisym)

lemma sorted_head_least:
  fixes xs :: "'a :: linorder list"
  assumes "sort xs = m # rest"
  shows "m \<in> set xs" and "\<forall>y \<in> set xs. m \<le> y"
proof -
  have s: "set (sort xs) = set xs" by simp
  show "m \<in> set xs" using s assms by (metis list.set_intros(1))
  have "sorted (m # rest)" using sorted_sort [of xs] assms by simp
  then have "\<forall>y \<in> set (m # rest). m \<le> y" by auto
  moreover have "set xs = set (m # rest)" using s assms by simp
  ultimately show "\<forall>y \<in> set xs. m \<le> y" by blast
qed

lemma mode_first:
  assumes "dropna cs \<noteq> []"
  shows "\<exists>m. at0 (mode cs) = Inr m \<and> most_frequent m (dropna cs) \<and>
             (\<forall>v. most_frequent v (dropna cs) \<longrightarrow> m \<le> v)"
proof -
  define vs where "vs = dropna cs"
  define highest where "highest = fold max (map (count_list vs) vs) 0"
  define S where "S = remdups (filter (\<lambda>v. count_list vs v = highest) vs)"
  have ne: "vs \<noteq> []" using assms by (simp add: vs_def)
  have md: "mode cs = sort S" by (simp add: mode_def Let_def vs_def highest_def S_def)
  have setS: "set S = {v \<in> set vs. count_list vs v = highest}" by (auto simp add: S_def)
  from highest_count(1) [OF ne] have "set S \<noteq> {}" unfolding setS highest_def by auto
  then have "sort S \<noteq> []" by (metis set_empty set_sort)
  then obtain m rest where mr: "sort S = m # rest" by (cases "sort S") auto
  from sorted_head_least [OF mr] have m: "m \<in> set S" "\<forall>y \<in> set S. m \<le> y" by auto
  have mf: "most_frequent v vs \<longleftrightarrow> v \<in> set S" for v
    using most_frequent_iff [OF ne, of v] by (auto simp add: setS highest_def)
  have "at0 (mode cs) = Inr m" by (simp add: md mr at0_def)
  with m mf show ?thesis unfolding vs_def by blast
qed

lemma for_each_column_nth:
"i < length d \<Longrightarrow> fst (for_each_column body d) ! i = fst (body (d ! i))"
  by (simp add: for_each_column_def)

lemma length_for_each_column: "length (fst (for_each_column body d)) = length d"
  by (simp add: for_each_column_def)

subsection \<open>Mean and mode imputation\<close>

lemma impute_numeric_col_Numeric:
  "fst (impute_numeric_col (col, Numeric cs)) =
     (col, Numeric (if dropna cs = [] \<or> both_infinities (dropna cs) then cs
                    else filled_with (mean_of (dropna cs)) cs))"
proof (cases "isnull_any cs")
  case False
  then have "None \<notin> set cs" by (simp add: isnull_any_iff)
  then have "filled_with (mean_of (dropna cs)) cs = cs" by (rule filled_with_complete)
  with False show ?thesis by simp
next
  case True
  show ?thesis
  proof (cases "dropna cs = [] \<or> both_infinities (dropna cs)")
    case True
    have "mean cs = None"
    proof (cases "dropna cs = []")
      case True
      then show ?thesis by (simp add: mean_def)
    next
      case False
      with \<open>dropna cs = [] \<or> both_infinities (dropna cs)\<close>
      have "both_infinities (dropna cs)" by simp
      then show ?thesis by (rule mean_both_infinities)
    qed
    with True \<open>isnull_any cs\<close> show ?thesis by (simp add: fillna_def)
  next
    case False
    then have "mean cs = Some (mean_of (dropna cs))" by (simp add: mean_defined)
    with False \<open>isnull_any cs\<close> show ?thesis by (simp add: fillna_Some)
  qed
qed


lemma impute_numeric_col_other:
  "fst (impute_numeric_col (col, Object cs)) = (col, Object cs)"
  "fst (impute_numeric_col (col, Datetime ds)) = (col, Datetime ds)"
  by simp_all

lemma impute_categorical_col_Object:
  assumes "dropna cs \<noteq> []"
  shows "\<exists>m es. most_frequent m (dropna cs) \<and> (\<forall>v. most_frequent v (dropna cs) \<longrightarrow> m \<le> v) \<and>
           at0 (mode cs) = Inr m \<and>
           impute_categorical_col (col, Object cs) = Inr ((col, Object (filled_with m cs)), es)"
proof -
  from mode_first [OF assms] obtain m where m: "at0 (mode cs) = Inr m"
    "most_frequent m (dropna cs)" "\<forall>v. most_frequent v (dropna cs) \<longrightarrow> m \<le> v" by blast
  show ?thesis
  proof (cases "isnull_any cs")
    case True
    with m(1) have "impute_categorical_col (col, Object cs) =
      Inr ((col, Object (filled_with m cs)), [ImputedMode col m])"
      by (simp add: fillna_Some)
    with m show ?thesis by blast
  next
    case False
    then have "None \<notin> set cs" by (simp add: isnull_any_iff)
    then have "filled_with m cs = cs" by (rule filled_with_complete)
    with False have "impute_categorical_col (col, Object cs) =
      Inr ((col, Object (filled_with m cs)), [])" by simp
    with m show ?thesis by blast
  qed
qed

lemma impute_categorical_col_loaded:
  assumes "loaded_column c"
  shows "\<exists>r. impute_categorical_col (fst (impute_numeric_col c)) = Inr r"
proof (cases c)
  case (Pair col x)
  show ?thesis
  proof (cases x)
    case (Numeric cs)
    with Pair show ?thesis
      by (simp add: impute_numeric_col_Numeric del: impute_numeric_col.simps)
  next
    case (Object cs)
    show ?thesis
    proof (cases "cs = []")
      case True
      with Pair Object show ?thesis by (simp add: isnull_any_def)
    next
      case False
      with assms Pair Object have "dropna cs \<noteq> []" by (simp add: loaded_column_def)
      from impute_categorical_col_Object [OF this, of col] Pair Object show ?thesis by auto
    qed
  next
    case (Datetime ds)
    with Pair show ?thesis by simp
  qed
qed

lemma impute_categorical_ok:
  assumes "\<forall>c \<in> set d. \<exists>r. impute_categorical_col c = Inr r"
  shows "fst (impute_categorical d) = None \<and>
         fst (snd (impute_categorical d)) = map (\<lambda>c. fst (projr (impute_categorical_col c))) d"
  using assms
proof (induction d)
  case Nil
  show ?case by simp
next
  case (Cons c d)
  from Cons.prems obtain c' es where r: "impute_categorical_col c = Inr (c', es)" by fastforce
  from Cons.prems have "\<forall>c \<in> set d. \<exists>r. impute_categorical_col c = Inr r" by simp
  moreover obtain r' d' es' where "impute_categorical d = (r', d', es')"
    by (cases "impute_categorical d") auto
  ultimately show ?case using Cons.IH r by simp
qed

lemma filter_None_empty: "None \<notin> set cs \<Longrightarrow> filter (\<lambda>c. c = None) cs = []"
  by (rule filter_False) metis

lemma missing_cells_filled:
  "missing_cells (Numeric (filled_with v cs)) = 0"
  "missing_cells (Object (filled_with w ts)) = 0"
  using filled_with_no_missing [of v cs] filled_with_no_missing [of w ts]
  by (simp_all add: missing_cells_def filter_None_empty)




text \<open>
  C9, as the code has it. Mode imputation of a text column that has a value and a missing
  cell fills every missing cell with one value, a most frequent one among the values of the
  column; when several values are most frequent it is the least of them in the order of
  strings (the first entry of the sorted modes), wherever they stand in the column. The
  column \<open>["LC", "LC", "EN", missing]\<close> has its missing cell filled with \<open>"LC"\<close>.
\<close>

theorem mode_imputation_least_most_frequent:
  "(dropna cs \<noteq> [] \<and> isnull_any cs \<longrightarrow>
      (\<exists>m. most_frequent m (dropna cs) \<and>
           (\<forall>v. most_frequent v (dropna cs) \<longrightarrow> m \<le> v) \<and>
           impute_categorical_col (col, Object cs) =
             Inr ((col, Object (filled_with m cs)), [ImputedMode col m]) \<and>
           missing_cells (Object (filled_with m cs)) = 0)) \<and>
   impute_missing_values
     (DataCleaner [(''status'', Object [Some ''LC'', Some ''LC'', Some ''EN'', None])]) =
     (None,
      \<lparr>df = [(''status'', Object [Some ''LC'', Some ''LC'', Some ''EN'', Some ''LC''])],
       original_df = [(''status'', Object [Some ''LC'', Some ''LC'', Some ''EN'', None])],
       out = [ImputedMode ''status'' ''LC'']\<rparr>)"
proof (intro conjI impI)
  assume a: "dropna cs \<noteq> [] \<and> isnull_any cs"
  then have ne: "dropna cs \<noteq> []" and nu: "isnull_any cs" by simp_all
  from mode_first [OF ne] obtain m where m: "at0 (mode cs) = Inr m"
    "most_frequent m (dropna cs)" "\<forall>v. most_frequent v (dropna cs) \<longrightarrow> m \<le> v" by blast
  have "impute_categorical_col (col, Object cs) =
      Inr ((col, Object (filled_with m cs)), [ImputedMode col m])"
    using nu m(1) by (simp add: fillna_Some)
  with m(2,3) missing_cells_filled(2) [of m cs]
  show "\<exists>m. most_frequent m (dropna cs) \<and>
           (\<forall>v. most_frequent v (dropna cs) \<longrightarrow> m \<le> v) \<and>
           impute_categorical_col (col, Object cs) =
             Inr ((col, Object (filled_with m cs)), [ImputedMode col m]) \<and>
           missing_cells (Object (filled_with m cs)) = 0"
    by blast
next
  show "impute_missing_values
     (DataCleaner [(''status'', Object [Some ''LC'', Some ''LC'', Some ''EN'', None])]) =
     (None,
      \<lparr>df = [(''status'', Object [Some ''LC'', Some ''LC'', Some ''EN'', Some ''LC''])],
       original_df = [(''status'', Object [Some ''LC'', Some ''LC'', Some ''EN'', None])],
       out = [ImputedMode ''status'' ''LC'']\<rparr>)"
    by (simp add: impute_missing_values_def DataCleaner_def for_each_column_def isnull_any_def
        mode_def dropna_def at0_def fillna_def)
qed

theorem mode_imputation_least_most_frequent_witness:
  "dropna [Some ''wet'', Some ''dry'', None] \<noteq> [] \<and>
   isnull_any [Some ''wet'', Some ''dry'', None] \<and>
   impute_categorical_col (''habitat'', Object [Some ''wet'', Some ''dry'', None]) =
     Inr ((''habitat'', Object [Some ''wet'', Some ''dry'', Some ''dry'']),
          [ImputedMode ''habitat'' ''dry''])"
proof -
  let ?cs = "[Some ''wet'', Some ''dry'', None]"
  have d: "dropna ?cs = [''wet'', ''dry'']" by (simp add: dropna_def)
  have h: "dropna ?cs \<noteq> [] \<and> isnull_any ?cs" by (simp add: d isnull_any_def)
  from mode_imputation_least_most_frequent [of ?cs "''habitat''"] h
  obtain m where m: "most_frequent m (dropna ?cs)"
    "\<forall>v. most_frequent v (dropna ?cs) \<longrightarrow> m \<le> v"
    "impute_categorical_col (''habitat'', Object ?cs) =
       Inr ((''habitat'', Object (filled_with m ?cs)), [ImputedMode ''habitat'' m])"
    by blast
  have "most_frequent ''dry'' (dropna ?cs)" by (simp add: d most_frequent_def)
  with m(2) have le: "m \<le> ''dry''" by blast
  from m(1) have "m = ''wet'' \<or> m = ''dry''" by (simp add: d most_frequent_def)
  with le have "m = ''dry''" by auto
  with m(3) h show ?thesis by (simp add: filled_with_def)
qed

text \<open>
  The column \<open>["wet", "dry", missing]\<close>: both values occur once, \<open>"wet"\<close> is the first of
  them in the column, and the missing cell is filled with \<open>"dry"\<close>.
\<close>

theorem mode_imputation_not_first_in_column:
  "first_most_frequent (dropna [Some ''wet'', Some ''dry'', None]) = Some ''wet'' \<and>
   impute_categorical_col (''habitat'', Object [Some ''wet'', Some ''dry'', None]) =
     Inr ((''habitat'', Object [Some ''wet'', Some ''dry'', Some ''dry'']),
          [ImputedMode ''habitat'' ''dry''])"
  by (simp add: first_most_frequent_def isnull_any_def mode_def dropna_def at0_def fillna_def)



subsection \<open>Outlier capping\<close>

lemma df_handle_outliers:
  "df (handle_outliers np_percentile s) =
     fst (for_each_column (handle_outliers_col np_percentile) (df s))"
  by (simp add: handle_outliers_def split: prod.splits)

lemma iqr_bounds_Some:
  assumes "quantile np_percentile (1 / 4) cs = Some (Finite q1)"
    and "quantile np_percentile (3 / 4) cs = Some (Finite q3)"
  shows "iqr_bounds np_percentile cs =
    (Some (Finite (q1 - 3 / 2 * (q3 - q1))), Some (Finite (q3 + 3 / 2 * (q3 - q1))))"
  using assms by (simp add: iqr_bounds_def nan_op_def fl_sub_def Let_def)

lemma fl_le_not_less: "fl_le a b \<Longrightarrow> \<not> fl_less b a"
  by (cases a; cases b) simp_all

lemma handle_outliers_col_inside:
  assumes "iqr_bounds np_percentile cs = (Some lo, Some hi)"
    and "\<forall>v. Some v \<in> set cs \<longrightarrow> fl_le lo v \<and> fl_le v hi"
  shows "handle_outliers_col np_percentile (col, Numeric cs) = ((col, Numeric cs), [])"
proof -
  have "\<not> (nan_less c (Some lo) \<or> nan_less (Some hi) c)" if "c \<in> set cs" for c
  proof (cases c)
    case None
    then show ?thesis by (simp add: nan_less_def)
  next
    case (Some v)
    with that assms(2) have "fl_le lo v" and "fl_le v hi" by blast+
    with Some show ?thesis by (simp add: nan_less_def fl_le_not_less)
  qed
  then have "filter (\<lambda>c. nan_less c (Some lo) \<or> nan_less (Some hi) c) cs = []"
    by (intro filter_False) blast
  with assms(1) show ?thesis by simp
qed

text \<open>
  C8. A numeric column whose values all lie within the bounds
  \<open>[Q1 - 1.5 * IQR, Q3 + 1.5 * IQR]\<close> computed from its current values is left as it is
  by the capping step, cell for cell, and nothing is reported for it: first for finite
  quartiles, with the bounds written out, then for any two bounds that are not \<open>NaN\<close>.
\<close>

theorem handle_outliers_within_bounds_unchanged:
  "(quantile np_percentile (1 / 4) cs = Some (Finite q1) \<and>
    quantile np_percentile (3 / 4) cs = Some (Finite q3) \<and>
    (\<forall>v. Some v \<in> set cs \<longrightarrow>
       (\<exists>x. v = Finite x \<and> q1 - 3 / 2 * (q3 - q1) \<le> x \<and> x \<le> q3 + 3 / 2 * (q3 - q1))) \<longrightarrow>
    handle_outliers_col np_percentile (col, Numeric cs) = ((col, Numeric cs), []) \<and>
    (\<forall>s i. i < length (df s) \<and> df s ! i = (col, Numeric cs) \<longrightarrow>
           df (handle_outliers np_percentile s) ! i = (col, Numeric cs))) \<and>
   (iqr_bounds np_percentile cs = (Some lo, Some hi) \<and>
    (\<forall>v. Some v \<in> set cs \<longrightarrow> fl_le lo v \<and> fl_le v hi) \<longrightarrow>
    handle_outliers_col np_percentile (col, Numeric cs) = ((col, Numeric cs), []) \<and>
    (\<forall>s i. i < length (df s) \<and> df s ! i = (col, Numeric cs) \<longrightarrow>
           df (handle_outliers np_percentile s) ! i = (col, Numeric cs)))"
proof -
  have step: "\<forall>s i. i < length (df s) \<and> df s ! i = (col, Numeric cs) \<longrightarrow>
           df (handle_outliers np_percentile s) ! i = (col, Numeric cs)"
    if c: "handle_outliers_col np_percentile (col, Numeric cs) = ((col, Numeric cs), [])"
  proof (intro allI impI)
    fix s :: cleaner and i
    assume "i < length (df s) \<and> df s ! i = (col, Numeric cs)"
    then show "df (handle_outliers np_percentile s) ! i = (col, Numeric cs)"
      using c by (simp add: df_handle_outliers for_each_column_nth)
  qed
  have general: "handle_outliers_col np_percentile (col, Numeric cs) = ((col, Numeric cs), [])"
    if "iqr_bounds np_percentile cs = (Some lo', Some hi')"
      and "\<forall>v. Some v \<in> set cs \<longrightarrow> fl_le lo' v \<and> fl_le v hi'" for lo' hi'
    using that by (rule handle_outliers_col_inside)
  have finite_case: "handle_outliers_col np_percentile (col, Numeric cs) = ((col, Numeric cs), [])"
    if q: "quantile np_percentile (1 / 4) cs = Some (Finite q1)"
      "quantile np_percentile (3 / 4) cs = Some (Finite q3)"
      and v: "\<forall>v. Some v \<in> set cs \<longrightarrow>
       (\<exists>x. v = Finite x \<and> q1 - 3 / 2 * (q3 - q1) \<le> x \<and> x \<le> q3 + 3 / 2 * (q3 - q1))"
  proof (rule general [OF iqr_bounds_Some [OF q]])
    show "\<forall>v. Some v \<in> set cs \<longrightarrow>
        fl_le (Finite (q1 - 3 / 2 * (q3 - q1))) v \<and> fl_le v (Finite (q3 + 3 / 2 * (q3 - q1)))"
    proof (intro allI impI)
      fix w assume "Some w \<in> set cs"
      with v obtain x where "w = Finite x" "q1 - 3 / 2 * (q3 - q1) \<le> x"
        "x \<le> q3 + 3 / 2 * (q3 - q1)" by blast
      then show "fl_le (Finite (q1 - 3 / 2 * (q3 - q1))) w \<and>
          fl_le w (Finite (q3 + 3 / 2 * (q3 - q1)))" by simp
    qed
  qed
  show ?thesis using finite_case general step by blast
qed

theorem handle_outliers_within_bounds_unchanged_witness:
  "quantile percentile_unused (1 / 4)
     [Some (Finite 1), Some (Finite 2), Some (Finite 3), Some (Finite 4), Some (Finite 5)] =
     Some (Finite 2) \<and>
   quantile percentile_unused (3 / 4)
     [Some (Finite 1), Some (Finite 2), Some (Finite 3), Some (Finite 4), Some (Finite 5)] =
     Some (Finite 4) \<and>
   handle_outliers_col percentile_unused
     (''depth'', Numeric [Some (Finite 1), Some (Finite 2), Some (Finite 3), Some (Finite 4),
                          Some (Finite 5)]) =
     ((''depth'', Numeric [Some (Finite 1), Some (Finite 2), Some (Finite 3), Some (Finite 4),
                           Some (Finite 5)]), [])"
proof -
  let ?cs = "[Some (Finite 1), Some (Finite 2), Some (Finite 3), Some (Finite 4), Some (Finite 5)]"
  have q1: "quantile percentile_unused (1 / 4) ?cs = Some (Finite 2)"
    by (simp add: quantile_def dropna_def is_finite_def finite_values_def)
  have q3: "quantile percentile_unused (3 / 4) ?cs = Some (Finite 4)"
    by (simp add: quantile_def dropna_def is_finite_def finite_values_def)
  have inside: "\<forall>v. Some v \<in> set ?cs \<longrightarrow>
      (\<exists>x. v = Finite x \<and> 2 - 3 / 2 * (4 - 2) \<le> x \<and> x \<le> 4 + 3 / 2 * (4 - 2))"
    by auto
  from handle_outliers_within_bounds_unchanged
    [where np_percentile = percentile_unused and cs = ?cs and ?q1.0 = 2 and ?q3.0 = 4
       and col = "''depth''"]
    q1 q3 inside
  show ?thesis by blast
qed

lemma cap_both:
  "(if nan_less (Some (Finite q)) (if nan_less c (Some (Finite q)) then Some (Finite q) else c)
    then Some (Finite q)
    else (if nan_less c (Some (Finite q)) then Some (Finite q) else c)) =
   map_option (\<lambda>v. Finite q) c"
proof (cases c)
  case None
  then show ?thesis by (simp add: nan_less_def)
next
  case (Some v)
  then show ?thesis by (cases v) (auto simp add: nan_less_def)
qed

lemma handle_outliers_col_flat:
  assumes "iqr_bounds np_percentile cs = (Some (Finite q), Some (Finite q))"
  shows "fst (handle_outliers_col np_percentile (col, Numeric cs)) =
    (col, Numeric (map (map_option (\<lambda>v. Finite q)) cs))"
proof (cases "filter (\<lambda>c. nan_less c (Some (Finite q)) \<or> nan_less (Some (Finite q)) c) cs = []")
  case True
  have "map_option (\<lambda>v. Finite q) c = c" if "c \<in> set cs" for c
  proof (cases c)
    case None
    then show ?thesis by simp
  next
    case (Some v)
    from True that have "\<not> (nan_less c (Some (Finite q)) \<or> nan_less (Some (Finite q)) c)"
      by (simp add: filter_empty_conv)
    with Some have "v = Finite q" by (cases v) (simp_all add: nan_less_def)
    with Some show ?thesis by simp
  qed
  then have "map (map_option (\<lambda>v. Finite q)) cs = cs" by (intro map_idI)
  with True assms show ?thesis by simp
next
  case False
  with assms show ?thesis by (simp add: Let_def cap_both comp_def)
qed

text \<open>
  C4. For a numeric column whose two quartiles are the same value \<open>q\<close>, so that the
  inter-quartile range is zero, both bounds are \<open>q\<close>, and after the capping step every cell
  of the column that is not missing holds \<open>q\<close>: no test on the inter-quartile range stands
  in the way.
\<close>

theorem handle_outliers_zero_iqr_flattens:
  assumes "quantile np_percentile (1 / 4) cs = Some (Finite q)"
    and "quantile np_percentile (3 / 4) cs = Some (Finite q)"
  shows "iqr_bounds np_percentile cs = (Some (Finite q), Some (Finite q)) \<and>
         fst (handle_outliers_col np_percentile (col, Numeric cs)) =
           (col, Numeric (map (map_option (\<lambda>v. Finite q)) cs)) \<and>
         (\<forall>s i. i < length (df s) \<and> df s ! i = (col, Numeric cs) \<longrightarrow>
                df (handle_outliers np_percentile s) ! i =
                  (col, Numeric (map (map_option (\<lambda>v. Finite q)) cs)))"
proof -
  have b: "iqr_bounds np_percentile cs = (Some (Finite q), Some (Finite q))"
    using iqr_bounds_Some [OF assms] by simp
  have c: "fst (handle_outliers_col np_percentile (col, Numeric cs)) =
      (col, Numeric (map (map_option (\<lambda>v. Finite q)) cs))"
    by (rule handle_outliers_col_flat [OF b])
  have "df (handle_outliers np_percentile s) ! i =
      (col, Numeric (map (map_option (\<lambda>v. Finite q)) cs))"
    if "i < length (df s) \<and> df s ! i = (col, Numeric cs)" for s i
    using that c by (simp add: df_handle_outliers for_each_column_nth del: handle_outliers_col.simps)
  with b c show ?thesis by blast
qed

theorem handle_outliers_zero_iqr_flattens_witness:
  "quantile percentile_unused (1 / 4)
     [Some (Finite 1), Some (Finite 2), Some (Finite 2), Some (Finite 2), Some (Finite 9)] =
     Some (Finite 2) \<and>
   quantile percentile_unused (3 / 4)
     [Some (Finite 1), Some (Finite 2), Some (Finite 2), Some (Finite 2), Some (Finite 9)] =
     Some (Finite 2) \<and>
   fst (handle_outliers_col percentile_unused
     (''depth'', Numeric [Some (Finite 1), Some (Finite 2), Some (Finite 2), Some (Finite 2),
                          Some (Finite 9)])) =
     (''depth'', Numeric [Some (Finite 2), Some (Finite 2), Some (Finite 2), Some (Finite 2),
                          Some (Finite 2)])"
proof -
  let ?cs = "[Some (Finite 1), Some (Finite 2), Some (Finite 2), Some (Finite 2), Some (Finite 9)]"
  have q1: "quantile percentile_unused (1 / 4) ?cs = Some (Finite 2)"
    by (simp add: quantile_def dropna_def is_finite_def finite_values_def)
  have q3: "quantile percentile_unused (3 / 4) ?cs = Some (Finite 2)"
    by (simp add: quantile_def dropna_def is_finite_def finite_values_def)
  from handle_outliers_zero_iqr_flattens [OF q1 q3, of "''depth''"]
  have "fst (handle_outliers_col percentile_unused (''depth'', Numeric ?cs)) =
     (''depth'', Numeric (map (map_option (\<lambda>v. Finite 2)) ?cs))" by blast
  with q1 q3 show ?thesis by simp
qed

text \<open>The scenario of the specification: ten depths, one of them 100.\<close>

lemma floor_rat_numeral: "\<lfloor>numeral a / numeral b :: rat\<rfloor> = numeral a div numeral b"
  using floor_divide_of_int_eq [of "numeral a" "numeral b", where ?'a = rat] by simp

lemma ceiling_rat_numeral: "\<lceil>numeral a / numeral b :: rat\<rceil> = - (- numeral a div numeral b)"
proof -
  have "\<lceil>numeral a / numeral b :: rat\<rceil> = - \<lfloor>- (numeral a / numeral b :: rat)\<rfloor>"
    by (simp add: ceiling_def)
  also have "- (numeral a / numeral b :: rat) = of_int (- numeral a) / of_int (numeral b)"
    by simp
  also have "\<lfloor>(of_int (- numeral a) / of_int (numeral b)) :: rat\<rfloor> = (- numeral a) div numeral b"
    by (rule floor_divide_of_int_eq)
  finally show ?thesis .
qed

lemma depth_quartiles:
  "quantile percentile_unused (1 / 4)
     (map (\<lambda>x. Some (Finite x)) [1, 2, 3, 4, 5, 6, 7, 8, 9, 100]) = Some (Finite (13 / 4)) \<and>
   quantile percentile_unused (3 / 4)
     (map (\<lambda>x. Some (Finite x)) [1, 2, 3, 4, 5, 6, 7, 8, 9, 100]) = Some (Finite (31 / 4))"
  by (simp add: quantile_def dropna_def is_finite_def finite_values_def
      floor_rat_numeral ceiling_rat_numeral)

lemma depth_scenario:
  "handle_outliers_col percentile_unused
     (''depth'', Numeric (map (\<lambda>x. Some (Finite x)) [1, 2, 3, 4, 5, 6, 7, 8, 9, 100])) =
     ((''depth'', Numeric (map (\<lambda>x. Some (Finite x)) [1, 2, 3, 4, 5, 6, 7, 8, 9, 29 / 2])),
      [OutliersCapped ''depth'' 1 (Some (Finite (- (7 / 2)))) (Some (Finite (29 / 2)))])"
  using depth_quartiles
  by (simp add: iqr_bounds_def nan_op_def nan_less_def fl_sub_def)

subsection \<open>Type coercion\<close>

lemma df_convert_data_types:
  "df (convert_data_types to_datetime to_numeric s) =
     fst (for_each_column (convert_numeric_col to_numeric)
            (fst (for_each_column (convert_date_col to_datetime) (df s))))"
  by (simp add: convert_data_types_def split: prod.splits)

lemma convert_numeric_col_Object:
  "fst (convert_numeric_col to_numeric (col, Object cs)) =
     (if (\<exists>t. Some t \<in> set cs \<and> to_numeric t \<noteq> None)
      then (col, Numeric (map (\<lambda>c. Option.bind c to_numeric) cs))
      else (col, Object cs))"
proof -
  have "notnull_any (map (\<lambda>c. Option.bind c to_numeric) cs) \<longleftrightarrow>
        (\<exists>t. Some t \<in> set cs \<and> to_numeric t \<noteq> None)"
  proof
    assume "notnull_any (map (\<lambda>c. Option.bind c to_numeric) cs)"
    then obtain c where c: "c \<in> set cs" "Option.bind c to_numeric \<noteq> None"
      by (auto simp add: notnull_any_def list_ex_iff)
    from c(2) obtain t where "c = Some t" by (cases c) auto
    with c show "\<exists>t. Some t \<in> set cs \<and> to_numeric t \<noteq> None" by auto
  next
    assume "\<exists>t. Some t \<in> set cs \<and> to_numeric t \<noteq> None"
    then obtain t where "Some t \<in> set cs" "to_numeric t \<noteq> None" by blast
    then have "\<exists>c \<in> set cs. Option.bind c to_numeric \<noteq> None"
      by (intro bexI [of _ "Some t"]) simp_all
    then show "notnull_any (map (\<lambda>c. Option.bind c to_numeric) cs)"
      by (simp add: notnull_any_def list_ex_iff)
  qed
  then show ?thesis by (simp add: Let_def)
qed

text \<open>
  C1, as the code has it. In the type-coercion step a text column (one that is not parsed as
  a date: its name has no \<open>date\<close> in it, or the date parser raised) is converted to a numeric
  column if and only if at least one of its values parses as a number. A converted column
  holds the number in every cell that parses and a missing cell in every other cell; a column
  none of whose values parses is left as text, unchanged.
\<close>

theorem convert_data_types_any_numeric:
  assumes "i < length (df s)" and "df s ! i = (col, Object cs)"
    and "\<not> contains (lower col) ''date'' \<or> (\<exists>e. to_datetime (Object cs) = Inl e)"
  shows "df (convert_data_types to_datetime to_numeric s) ! i =
     (if (\<exists>t. Some t \<in> set cs \<and> to_numeric t \<noteq> None)
      then (col, Numeric (map (\<lambda>c. Option.bind c to_numeric) cs))
      else (col, Object cs))"
proof -
  have d: "fst (convert_date_col to_datetime (col, Object cs)) = (col, Object cs)"
    using assms(3) by auto
  have "df (convert_data_types to_datetime to_numeric s) ! i =
     fst (convert_numeric_col to_numeric (fst (convert_date_col to_datetime (df s ! i))))"
    using assms(1) by (simp add: df_convert_data_types for_each_column_nth length_for_each_column)
  also have "\<dots> = fst (convert_numeric_col to_numeric (col, Object cs))"
    using assms(2) d by simp
  finally show ?thesis by (simp only: convert_numeric_col_Object)
qed

theorem convert_data_types_any_numeric_witness:
  "df (convert_data_types to_datetime_no_date to_numeric_digits
         (DataCleaner [(''depth'', Object [Some ''12'', None, Some ''unknown''])])) ! 0 =
     (''depth'', Numeric [Some (Finite 12), None, None])"
proof -
  let ?s = "DataCleaner [(''depth'', Object [Some ''12'', None, Some ''unknown''])]"
  have a: "0 < length (df ?s)" by (simp add: DataCleaner_def)
  have b: "df ?s ! 0 = (''depth'', Object [Some ''12'', None, Some ''unknown''])"
    by (simp add: DataCleaner_def)
  have c: "\<not> contains (lower ''depth'') ''date'' \<or>
           (\<exists>e. to_datetime_no_date (Object [Some ''12'', None, Some ''unknown'']) = Inl e)"
    by (simp add: lower_def lower_char_def)
  from convert_data_types_any_numeric
    [where i = 0 and s = ?s and col = "''depth''" and to_datetime = to_datetime_no_date
       and cs = "[Some ''12'', None, Some ''unknown'']" and to_numeric = to_numeric_digits,
     OF a b c]
  have r: "df (convert_data_types to_datetime_no_date to_numeric_digits ?s) ! 0 =
     (if (\<exists>t. Some t \<in> set [Some ''12'', None, Some ''unknown''] \<and> to_numeric_digits t \<noteq> None)
      then (''depth'', Numeric (map (\<lambda>c. Option.bind c to_numeric_digits)
                                 [Some ''12'', None, Some ''unknown'']))
      else (''depth'', Object [Some ''12'', None, Some ''unknown'']))" .
  have ex: "\<exists>t. Some t \<in> set [Some ''12'', None, Some ''unknown''] \<and> to_numeric_digits t \<noteq> None"
    by (intro exI [of _ "''12''"]) (simp add: to_numeric_digits_def is_digit_def)
  have vals: "map (\<lambda>c. Option.bind c to_numeric_digits) [Some ''12'', None, Some ''unknown''] =
      [Some (Finite 12), None, None]"
    by (simp add: to_numeric_digits_def is_digit_def)
  from r show ?thesis by (simp only: ex if_True vals)
qed

text \<open>
  The text column \<open>["12", "deep"]\<close>: \<open>"deep"\<close> is not a number, and the column becomes the
  numeric column \<open>[12, missing]\<close>.
\<close>

theorem convert_data_types_mixed_column_converted:
  "to_numeric_digits ''deep'' = None \<and>
   df (convert_data_types to_datetime_no_date to_numeric_digits
         (DataCleaner [(''depth'', Object [Some ''12'', Some ''deep''])])) =
     [(''depth'', Numeric [Some (Finite 12), None])]"
  by (simp add: convert_data_types_def for_each_column_def DataCleaner_def lower_def
      lower_char_def notnull_any_def to_numeric_digits_def is_digit_def)

subsection \<open>Nearest-neighbour imputation\<close>

lemma row_count_set_column:
  "ncells v = row_count d \<Longrightarrow> row_count (set_column col v d) = row_count d"
  by (cases d) (auto simp add: row_count_def set_column_def split: prod.splits)

lemma length_set_column: "length (set_column col v d) = length d"
  by (simp add: set_column_def)

lemma rectangular_set_column:
  assumes "rectangular d" and "ncells v = row_count d"
  shows "rectangular (set_column col v d)"
  using assms row_count_set_column [OF assms(2), of col]
  by (auto simp add: rectangular_def list_all_iff set_column_def)

lemma assign_columns_row_count:
  "row_count (snd (assign_columns i cols imputed d)) = row_count d"
proof (induction i cols imputed d rule: assign_columns.induct)
  case (1 i imputed d)
  show ?case by simp
next
  case (2 i col cols imputed d)
  then show ?case by (simp add: row_count_set_column)
qed

lemma assign_columns_rectangular:
  "rectangular d \<Longrightarrow> rectangular (snd (assign_columns i cols imputed d))"
proof (induction i cols imputed d rule: assign_columns.induct)
  case (1 i imputed d)
  then show ?case by simp
next
  case (2 i col cols imputed d)
  then show ?case by (simp add: rectangular_set_column)
qed

lemma assign_columns_length:
  "length (snd (assign_columns i cols imputed d)) = length d"
  by (induction i cols imputed d rule: assign_columns.induct) (simp_all add: length_set_column)

lemma assign_columns_ok:
  assumes "i + length cols \<le> length imputed"
    and "\<forall>j. i \<le> j \<and> j < i + length cols \<longrightarrow> length (imputed ! j) = row_count d"
  shows "fst (assign_columns i cols imputed d) = None"
  using assms
proof (induction i cols imputed d rule: assign_columns.induct)
  case (1 i imputed d)
  show ?case by simp
next
  case (2 i col cols imputed d)
  from "2.prems"(1) have lt: "\<not> length imputed \<le> i" by simp
  from "2.prems"(2) have len: "length (imputed ! i) = row_count d" by simp
  have rc: "row_count (set_column col (Numeric (imputed ! i)) d) = row_count d"
    using len by (simp add: row_count_set_column)
  have "fst (assign_columns (Suc i) cols imputed (set_column col (Numeric (imputed ! i)) d)) = None"
  proof (rule "2.IH" [OF lt])
    show "\<not> length (imputed ! i) \<noteq> row_count d" using len by simp
    show "Suc i + length cols \<le> length imputed" using "2.prems"(1) by simp
    show "\<forall>j. Suc i \<le> j \<and> j < Suc i + length cols \<longrightarrow>
        length (imputed ! j) = row_count (set_column col (Numeric (imputed ! i)) d)"
      using "2.prems"(2) rc by simp
  qed
  with lt len show ?case by simp
qed

lemma numeric_columns_cells:
  assumes "rectangular d" and "c \<in> set (numeric_columns d)"
  shows "length (snd c) = row_count d"
proof -
  from assms(2) obtain col where "(col, Numeric (snd c)) \<in> set d"
    by (auto simp add: numeric_columns_def split: prod.splits coldata.splits)
  with assms(1) show ?thesis by (auto simp add: rectangular_def list_all_iff)
qed

lemma knn_body_failure:
  assumes "shape_preserving fit_transform" and "rectangular (df s)"
    and "knn_imputation_body fit_transform s = (Some e, s')"
  shows "s' = s"
proof -
  define numeric_cols where "numeric_cols = numeric_columns (df s)"
  define numeric_data where "numeric_data =
    filter (\<lambda>c. dropna (snd c) \<noteq> []) (map (\<lambda>c. (fst c, replace_inf (snd c))) numeric_cols)"
  define k where "k = min 5 (int (row_count (df s)) - 1)"
  note defs = numeric_cols_def [symmetric] numeric_data_def [symmetric] k_def [symmetric]
  show ?thesis
  proof (cases "fit_transform k (map snd numeric_data)")
    case (Inl e')
    with assms(3) show ?thesis
      by (auto simp add: knn_imputation_body_def Let_def defs split: if_splits)
  next
    case (Inr Y)
    have "list_all (\<lambda>column. dropna column \<noteq> []) (map snd numeric_data)"
      by (simp add: numeric_data_def list_all_iff)
    with assms(1) Inr have sh: "map length Y = map length (map snd numeric_data)"
      unfolding shape_preserving_def by blast
    then have lenY: "length Y = length numeric_data"
      using length_map by (metis (no_types))
    have cells: "length (Y ! j) = row_count (df s)" if "j < length numeric_data" for j
    proof -
      have "length (Y ! j) = map length Y ! j" using that lenY by simp
      also have "\<dots> = length (snd (numeric_data ! j))" using that sh by simp
      also have "\<dots> = row_count (df s)"
      proof -
        have "numeric_data ! j \<in> set numeric_data" using that by simp
        then obtain c where c: "c \<in> set (numeric_columns (df s))"
          "numeric_data ! j = (fst c, replace_inf (snd c))"
          by (auto simp add: numeric_data_def numeric_cols_def)
        from numeric_columns_cells [OF assms(2) c(1)] c(2) show ?thesis
          by (simp add: replace_inf_def)
      qed
      finally show ?thesis .
    qed
    have "fst (assign_columns 0 (map fst numeric_data) Y (df s)) = None"
      by (rule assign_columns_ok) (simp_all add: lenY cells)
    then obtain d where "assign_columns 0 (map fst numeric_data) Y (df s) = (None, d)"
      by (cases "assign_columns 0 (map fst numeric_data) Y (df s)") auto
    with assms(3) Inr show ?thesis
      by (auto simp add: knn_imputation_body_def Let_def defs split: if_splits)
  qed
qed

text \<open>
  C6. Let \<open>fit_transform\<close> return arrays of the shape of its argument, when no column of
  the argument is all missing, and let the frame be rectangular. When the statements of the nearest-neighbour step end with an exception, no
  column has been assigned: the handler prints the error and the notice that cleaning goes
  on, the step returns the cleaner with the frame exactly as mean/mode imputation left it,
  and \<open>clean_data\<close> goes on to outlier capping and type coercion from that frame.
\<close>

theorem knn_imputation_failure_keeps_dataset:
  assumes "shape_preserving fit_transform" and "rectangular (df s)"
    and "knn_imputation_body fit_transform s = (Some e, s')"
  shows "knn_imputation fit_transform s = s\<lparr>out := out s @ [KnnError e, Proceeding]\<rparr> \<and>
         df (knn_imputation fit_transform s) = df s \<and>
         (\<forall>s0 to_datetime to_numeric np_percentile.
             impute_missing_values s0 = (None, s) \<longrightarrow>
             clean_data to_datetime to_numeric fit_transform np_percentile s0 =
               (None, convert_data_types to_datetime to_numeric
                        (handle_outliers np_percentile
                           (s\<lparr>out := out s @ [KnnError e, Proceeding]\<rparr>))))"
proof -
  have eq: "s' = s" by (rule knn_body_failure [OF assms])
  have k: "knn_imputation fit_transform s = s\<lparr>out := out s @ [KnnError e, Proceeding]\<rparr>"
    using assms(3) eq by (simp add: knn_imputation_def)
  then have d: "df (knn_imputation fit_transform s) = df s" by simp
  have "clean_data to_datetime to_numeric fit_transform np_percentile s0 =
               (None, convert_data_types to_datetime to_numeric
                        (handle_outliers np_percentile
                           (s\<lparr>out := out s @ [KnnError e, Proceeding]\<rparr>)))"
    if "impute_missing_values s0 = (None, s)" for s0 to_datetime to_numeric np_percentile
    using that k by (simp add: clean_data_def)
  with k d show ?thesis by blast
qed

lemma shape_preserving_knn_complete: "shape_preserving knn_complete"
  by (auto simp add: shape_preserving_def knn_complete_def split: if_splits)

theorem knn_imputation_failure_keeps_dataset_witness:
  "shape_preserving knn_complete \<and>
   rectangular (df (DataCleaner [(''depth'', Numeric [Some (Finite 7)]), (''status'', Object [Some ''LC''])])) \<and>
   knn_imputation knn_complete
     (DataCleaner [(''depth'', Numeric [Some (Finite 7)]), (''status'', Object [Some ''LC''])]) =
     \<lparr>df = [(''depth'', Numeric [Some (Finite 7)]), (''status'', Object [Some ''LC''])],
      original_df = [(''depth'', Numeric [Some (Finite 7)]), (''status'', Object [Some ''LC''])],
      out = [KnnError ValueError, Proceeding]\<rparr>"
proof -
  let ?s = "DataCleaner [(''depth'', Numeric [Some (Finite 7)]), (''status'', Object [Some ''LC''])]"
  have r: "rectangular (df ?s)" by (simp add: DataCleaner_def rectangular_def row_count_def)
  have b: "knn_imputation_body knn_complete ?s = (Some ValueError, ?s)"
    by (simp add: knn_imputation_body_def DataCleaner_def numeric_columns_def dropna_def
        replace_inf_def row_count_def knn_complete_def)
  from knn_imputation_failure_keeps_dataset [OF shape_preserving_knn_complete r b]
  have "knn_imputation knn_complete ?s = ?s\<lparr>out := out ?s @ [KnnError ValueError, Proceeding]\<rparr>"
    by blast
  then show ?thesis using r shape_preserving_knn_complete by (simp add: DataCleaner_def)
qed

subsection \<open>Row counts\<close>

lemma row_count_cell_counts:
  "cell_counts d' = cell_counts d \<Longrightarrow> row_count d' = row_count d"
  by (cases d; cases d') (auto simp add: cell_counts_def row_count_def split: prod.splits)

lemma rectangular_iff: "rectangular d \<longleftrightarrow> (\<forall>n \<in> set (cell_counts d). n = row_count d)"
  by (auto simp add: rectangular_def cell_counts_def list_all_iff)

lemma rectangular_cell_counts:
  "cell_counts d' = cell_counts d \<Longrightarrow> rectangular d \<Longrightarrow> rectangular d'"
  using row_count_cell_counts [of d' d] by (simp add: rectangular_iff)

lemma cell_counts_for_each_column:
  assumes "\<And>c. ncells (snd (fst (body c))) = ncells (snd c)"
  shows "cell_counts (fst (for_each_column body d)) = cell_counts d"
  using assms by (simp add: for_each_column_def cell_counts_def)

lemma ncells_impute_numeric_col: "ncells (snd (fst (impute_numeric_col c))) = ncells (snd c)"
  by (cases c rule: impute_numeric_col.cases) (simp_all add: length_fillna Let_def)

lemma ncells_impute_categorical_col:
  "impute_categorical_col c = Inr (c', es) \<Longrightarrow> ncells (snd c') = ncells (snd c)"
  by (cases c rule: impute_categorical_col.cases)
    (auto simp add: length_fillna split: if_splits sum.splits)

lemma cell_counts_impute_categorical:
  "cell_counts (fst (snd (impute_categorical d))) = cell_counts d"
proof (induction d)
  case Nil
  show ?case by (simp add: cell_counts_def)
next
  case (Cons c d)
  show ?case
  proof (cases "impute_categorical_col c")
    case (Inl e)
    then show ?thesis by simp
  next
    case (Inr r)
    obtain c' es where r: "r = (c', es)" by (cases r)
    obtain e d' es' where rec: "impute_categorical d = (e, d', es')"
      by (cases "impute_categorical d") auto
    from Inr r have "ncells (snd c') = ncells (snd c)"
      by (simp add: ncells_impute_categorical_col)
    with Cons.IH Inr r rec show ?thesis by (simp add: cell_counts_def)
  qed
qed

lemma cell_counts_impute_missing_values:
  "cell_counts (df (snd (impute_missing_values s))) = cell_counts (df s)"
proof -
  obtain d1 es1 where a: "for_each_column impute_numeric_col (df s) = (d1, es1)"
    by (cases "for_each_column impute_numeric_col (df s)")
  obtain r d2 es2 where b: "impute_categorical d1 = (r, d2, es2)"
    by (cases "impute_categorical d1") auto
  have "cell_counts d1 = cell_counts (df s)"
    using cell_counts_for_each_column [of impute_numeric_col "df s"] a
    by (simp add: ncells_impute_numeric_col)
  moreover have "cell_counts d2 = cell_counts d1"
    using cell_counts_impute_categorical [of d1] b by simp
  ultimately show ?thesis by (simp add: impute_missing_values_def a b)
qed

lemma ncells_handle_outliers_col:
  "ncells (snd (fst (handle_outliers_col np_percentile c))) = ncells (snd c)"
proof (cases c)
  case (Pair col x)
  then show ?thesis by (cases x) (simp_all add: Let_def split: prod.splits)
qed

lemma cell_counts_handle_outliers:
  "cell_counts (df (handle_outliers np_percentile s)) = cell_counts (df s)"
  by (simp add: df_handle_outliers cell_counts_for_each_column ncells_handle_outliers_col)

lemma ncells_convert_date_col:
  assumes "index_preserving to_datetime"
  shows "ncells (snd (fst (convert_date_col to_datetime c))) = ncells (snd c)"
proof (cases c)
  case (Pair col x)
  show ?thesis
  proof (cases "to_datetime x")
    case (Inl e)
    with Pair show ?thesis by simp
  next
    case (Inr converted)
    with assms have "length converted = ncells x" unfolding index_preserving_def by blast
    with Pair Inr show ?thesis by simp
  qed
qed

lemma ncells_convert_numeric_col:
  "ncells (snd (fst (convert_numeric_col to_numeric c))) = ncells (snd c)"
proof (cases c)
  case (Pair col x)
  then show ?thesis by (cases x) (simp_all add: Let_def)
qed

lemma cell_counts_convert_data_types:
  assumes "index_preserving to_datetime"
  shows "cell_counts (df (convert_data_types to_datetime to_numeric s)) = cell_counts (df s)"
  by (simp add: df_convert_data_types cell_counts_for_each_column ncells_convert_numeric_col
      ncells_convert_date_col [OF assms])

lemma df_knn_imputation:
  "df (knn_imputation fit_transform s) = df s \<or>
   (\<exists>i cols imputed. df (knn_imputation fit_transform s) = snd (assign_columns i cols imputed (df s)))"
proof -
  define numeric_data where
    "numeric_data = filter (\<lambda>c. dropna (snd c) \<noteq> [])
       (map (\<lambda>c. (fst c, replace_inf (snd c))) (numeric_columns (df s)))"
  define k where "k = min 5 (int (row_count (df s)) - 1)"
  note defs = numeric_data_def [symmetric] k_def [symmetric]
  show ?thesis
  proof (cases "fit_transform k (map snd numeric_data)")
    case (Inl e)
    then have "df (knn_imputation fit_transform s) = df s"
      by (simp add: knn_imputation_def knn_imputation_body_def Let_def defs)
    then show ?thesis by simp
  next
    case (Inr Y)
    obtain r d where a: "assign_columns 0 (map fst numeric_data) Y (df s) = (r, d)"
      by (cases "assign_columns 0 (map fst numeric_data) Y (df s)")
    have "df (knn_imputation fit_transform s) = df s \<or> df (knn_imputation fit_transform s) = d"
      using Inr a
      by (cases r) (simp_all add: knn_imputation_def knn_imputation_body_def Let_def defs)
    with a show ?thesis by (metis snd_conv)
  qed
qed

lemma row_count_knn_imputation:
  "row_count (df (knn_imputation fit_transform s)) = row_count (df s)"
  using df_knn_imputation [of fit_transform s] assign_columns_row_count by metis

lemma rectangular_knn_imputation:
  "rectangular (df s) \<Longrightarrow> rectangular (df (knn_imputation fit_transform s))"
  using df_knn_imputation [of fit_transform s] assign_columns_rectangular by metis

lemma impute_missing_values_loaded:
  assumes "list_all loaded_column (df s)"
  shows "fst (impute_missing_values s) = None"
proof -
  define d1 where "d1 = map (\<lambda>c. fst (impute_numeric_col c)) (df s)"
  have "\<forall>c \<in> set d1. \<exists>r. impute_categorical_col c = Inr r"
    using assms impute_categorical_col_loaded by (auto simp add: d1_def list_all_iff)
  from impute_categorical_ok [OF this] have "fst (impute_categorical d1) = None" by simp
  then obtain d2 es2 where "impute_categorical d1 = (None, d2, es2)"
    by (cases "impute_categorical d1") auto
  then show ?thesis
    by (simp add: impute_missing_values_def for_each_column_def d1_def)
qed

text \<open>
  C7. Let \<open>to_datetime\<close> return one cell per cell of its argument. Whatever the frame, the
  frame that \<open>clean_data\<close> leaves has the row count of the frame it started from, and when
  every column of the original has one cell per row, so has every column of the result: no
  step drops or adds a row. On a frame as \<open>read_csv\<close> loads it, \<open>clean_data\<close> runs its four
  steps to the end.
\<close>

theorem clean_data_row_count:
  assumes "index_preserving to_datetime"
  shows "row_count (df (snd (clean_data to_datetime to_numeric fit_transform np_percentile s))) = row_count (df s) \<and>
         (rectangular (df s) \<longrightarrow>
            rectangular (df (snd (clean_data to_datetime to_numeric fit_transform np_percentile s)))) \<and>
         (list_all loaded_column (df s) \<longrightarrow>
            fst (clean_data to_datetime to_numeric fit_transform np_percentile s) = None)"
proof -
  obtain r s1 where i: "impute_missing_values s = (r, s1)"
    by (cases "impute_missing_values s")
  have c1: "cell_counts (df s1) = cell_counts (df s)"
    using cell_counts_impute_missing_values [of s] i by simp
  define s2 where "s2 = knn_imputation fit_transform s1"
  define s3 where "s3 = handle_outliers np_percentile s2"
  define s4 where "s4 = convert_data_types to_datetime to_numeric s3"
  have c3: "cell_counts (df s3) = cell_counts (df s2)"
    by (simp add: s3_def cell_counts_handle_outliers)
  have c4: "cell_counts (df s4) = cell_counts (df s3)"
    by (simp add: s4_def cell_counts_convert_data_types [OF assms])
  have r1: "row_count (df s1) = row_count (df s)" by (rule row_count_cell_counts [OF c1])
  have r2: "row_count (df s2) = row_count (df s1)" by (simp add: s2_def row_count_knn_imputation)
  have r4: "row_count (df s4) = row_count (df s2)"
    using row_count_cell_counts [OF c4] row_count_cell_counts [OF c3] by simp
  have q1: "rectangular (df s) \<Longrightarrow> rectangular (df s1)" by (rule rectangular_cell_counts [OF c1])
  have q4: "rectangular (df s1) \<Longrightarrow> rectangular (df s4)"
    using rectangular_knn_imputation [of s1 fit_transform]
      rectangular_cell_counts [OF c3] rectangular_cell_counts [OF c4]
    by (simp add: s2_def)
  have res: "snd (clean_data to_datetime to_numeric fit_transform np_percentile s) = (if r = None then s4 else s1)"
    using i by (cases r) (simp_all add: clean_data_def s4_def s3_def s2_def)
  have a: "row_count (df (snd (clean_data to_datetime to_numeric fit_transform np_percentile s))) = row_count (df s)"
    using res r1 r2 r4 by simp
  have b: "rectangular (df s) \<longrightarrow>
            rectangular (df (snd (clean_data to_datetime to_numeric fit_transform np_percentile s)))"
    using res q1 q4 by simp
  have c: "list_all loaded_column (df s) \<longrightarrow>
            fst (clean_data to_datetime to_numeric fit_transform np_percentile s) = None"
  proof
    assume "list_all loaded_column (df s)"
    from impute_missing_values_loaded [OF this] i have "r = None" by simp
    with i show "fst (clean_data to_datetime to_numeric fit_transform np_percentile s) = None"
      by (simp add: clean_data_def)
  qed
  from a b c show ?thesis by blast
qed

lemma index_preserving_no_date: "index_preserving to_datetime_no_date"
  by (simp add: index_preserving_def to_datetime_no_date_def)

theorem clean_data_row_count_witness:
  "index_preserving to_datetime_no_date \<and>
   row_count (df (snd (clean_data to_datetime_no_date to_numeric_digits knn_complete
     percentile_unused
     (DataCleaner [(''depth'', Numeric [Some (Finite 1), None, Some (Finite 100)]),
                   (''eventDate'', Object [Some ''May'', None, Some ''June''])])))) = 3"
proof -
  let ?s = "DataCleaner [(''depth'', Numeric [Some (Finite 1), None, Some (Finite 100)]),
                   (''eventDate'', Object [Some ''May'', None, Some ''June''])]"
  have "row_count (df ?s) = 3" by (simp add: DataCleaner_def row_count_def)
  with clean_data_row_count
      [OF index_preserving_no_date, of to_numeric_digits knn_complete percentile_unused ?s]
    index_preserving_no_date
  show ?thesis by simp
qed


end
